theory Spec2Isabelle
  imports Main
begin


section \<open>The transport puzzle: data model\<close>

text \<open>
  The puzzle code is the JavaScript module that follows the project description in
  \<^verbatim>\<open>README.md\<close>: \<^verbatim>\<open>generateRandomConfig\<close>, \<^verbatim>\<open>generateAllowedMoves\<close>,
  \<^verbatim>\<open>generatePrologCode\<close>, \<^verbatim>\<open>moveToSentence\<close>, \<^verbatim>\<open>solveProblem\<close>,
  \<^verbatim>\<open>checkUserSolution\<close> and \<^verbatim>\<open>parseSolutionLines\<close>.

  A config is the object \<^verbatim>\<open>{ species: [{name, count}], relationships: [{predator, prey}],
  starshipCapacity }\<close>. JavaScript numbers are modelled as unbounded integers: the code
  only counts individuals, and a double is exact on the integers below \<open>2^53\<close>. From
  \<open>2^53\<close> on the doubles of the source round, which the model does not follow; the
  statement about the amounts that the decoder computes carries this bound as a
  hypothesis. Strings are lists of 8-bit characters, read as code units below 256.

  The definitions come first, then the facts about them, then the claims. The search
  predicate \<^verbatim>\<open>path\<close> alone is defined after the facts that show that it terminates.
\<close>

record Species =
  name :: string
  count :: int

record Relationship =
  predator :: string
  prey :: string

record Config =
  species :: "Species list"
  relationships :: "Relationship list"
  starshipCapacity :: int

section \<open>Move enumeration\<close>

text \<open>
  \<^verbatim>\<open>
  function generateAllowedMoves(n, capacity) {
      const moves = [];
      function helper(current, index) {
          if (index === n) {
              const total = current.reduce((a, b) => a + b, 0);
              if (total >= 1 && total <= capacity) { moves.push([...current]); }
              return;
          }
          for (let i = 0; i <= capacity; i++) {
              current.push(i); helper(current, index + 1); current.pop();
          }
      }
      helper([], 0);
      return moves;
  }
  \<close>
  The recursion of \<open>helper\<close> runs on the number of positions still to fill, \<open>n - index\<close>
  (the last argument below); the vectors pushed to \<open>moves\<close> are returned in the order of
  the pushes.
\<close>

fun helper :: "int \<Rightarrow> int list \<Rightarrow> nat \<Rightarrow> int list list" where
  "helper capacity current 0 =
     (let total = sum_list current
      in if total \<ge> 1 \<and> total \<le> capacity then [current] else [])"
| "helper capacity current (Suc k) =
     concat (map (\<lambda>i. helper capacity (current @ [i]) k) [0..capacity])"

definition generateAllowedMoves :: "nat \<Rightarrow> int \<Rightarrow> int list list" where
  "generateAllowedMoves n capacity = helper capacity [] n"

section \<open>The compiled program\<close>

text \<open>
  \<^verbatim>\<open>generatePrologCode\<close> returns program text: facts that depend on the config, followed
  by rules that do not. The model keeps the facts as data and gives the rules their
  meaning as functions below. The facts are the \<^verbatim>\<open>move/1\<close> facts in the order they are
  emitted, \<^verbatim>\<open>init_counts/1\<close>, \<^verbatim>\<open>initial_state/1\<close>, \<^verbatim>\<open>final_state/1\<close>, and the two
  indices \<^verbatim>\<open>predatorIndex\<close>, \<^verbatim>\<open>preyIndex\<close> that each relationship contributes to the
  body of \<^verbatim>\<open>safe/1\<close> (an empty list stands for the fact \<^verbatim>\<open>safe(_).\<close>).
\<close>

datatype side = start | target

type_synonym state = "int list \<times> side"

record prolog_program =
  move_facts :: "int list list"
  init_counts :: "int list"
  initial_state :: state
  final_state :: state
  safe_clauses :: "(int \<times> int) list"

text \<open>\<^verbatim>\<open>Array.prototype.indexOf\<close>: the first index of the element, or \<open>-1\<close>.\<close>

fun indexOf :: "'a list \<Rightarrow> 'a \<Rightarrow> int" where
  "indexOf [] x = -1"
| "indexOf (y # ys) x =
     (if y = x then 0 else (let i = indexOf ys x in if i < 0 then -1 else i + 1))"

text \<open>
  \<^verbatim>\<open>
  const relationships = config.relationships || [];
  const starshipCapacity = config.starshipCapacity || 2;
  const n = species.length;
  const speciesNames = species.map((s) => s.name);
  const initCounts = species.map((s) => s.count);
  const zeros = Array(n).fill(0);
  const allowedMoves = generateAllowedMoves(n, starshipCapacity);
  \<close>
  A capacity of \<open>0\<close> is falsy and is replaced by \<open>2\<close>.
\<close>

definition generatePrologCode :: "Config \<Rightarrow> prolog_program" where
  "generatePrologCode config =
     (let sp = species config;
          rels = relationships config;
          capacity = (if starshipCapacity config = 0 then 2 else starshipCapacity config);
          n = length sp;
          speciesNames = map name sp;
          initCounts = map count sp;
          zeros = replicate n 0
      in \<lparr> move_facts = generateAllowedMoves n capacity,
           init_counts = initCounts,
           initial_state = (initCounts, start),
           final_state = (zeros, target),
           safe_clauses = map (\<lambda>rel. (indexOf speciesNames (predator rel),
                                      indexOf speciesNames (prey rel))) rels \<rparr>)"

section \<open>The rules of the compiled program\<close>

text \<open>
  A Prolog goal is modelled by the list of its answers, in the order in which the
  depth-first resolution of the engine finds them: the empty list is failure, and a goal
  that can be proved in several ways has several answers. The arithmetic of the rules is
  over integers. The engine is taken to be a complete Prolog: a bound that it may put on
  the number of inference steps is not modelled.

  \<^verbatim>\<open>
  nth0(0, [H|_], H) :- !.
  nth0(N, [_|T], X) :- N > 0, N1 is N - 1, nth0(N1, T, X).
  \<close>
  It is always called with the index and the list bound, so it has at most one answer.
\<close>

fun nth0 :: "int \<Rightarrow> int list \<Rightarrow> int option" where
  "nth0 N [] = None"
| "nth0 N (H # T) = (if N = 0 then Some H else if N > 0 then nth0 (N - 1) T else None)"

text \<open>A disjunction \<^verbatim>\<open>(A ; B)\<close> of two tests: one answer for each disjunct that holds.\<close>

definition disj_goal :: "bool \<Rightarrow> bool \<Rightarrow> unit list" where
  "disj_goal A B = (if A then [()] else []) @ (if B then [()] else [])"

text \<open>
  The body of \<^verbatim>\<open>safe(state(Counts,_))\<close>, one block per relationship, in order:
  \<^verbatim>\<open>
  nth0(predatorIndex, Counts, PredCount), nth0(preyIndex, Counts, PreyCount),
  (PreyCount =:= 0 ; PreyCount >= PredCount),
  init_counts(Init),
  nth0(predatorIndex, Init, InitPred), nth0(preyIndex, Init, InitPrey),
  TargetPred is InitPred - PredCount, TargetPrey is InitPrey - PreyCount,
  (TargetPrey =:= 0 ; TargetPrey >= TargetPred)
  \<close>
  With no relationship the predicate is the fact \<^verbatim>\<open>safe(_).\<close>, which has one answer.
\<close>

fun safe_body :: "(int \<times> int) list \<Rightarrow> int list \<Rightarrow> int list \<Rightarrow> unit list" where
  "safe_body [] Counts Init = [()]"
| "safe_body ((predatorIndex, preyIndex) # rest) Counts Init =
     (case nth0 predatorIndex Counts of None \<Rightarrow> [] | Some PredCount \<Rightarrow>
      case nth0 preyIndex Counts of None \<Rightarrow> [] | Some PreyCount \<Rightarrow>
      concat (map (\<lambda>_.
        case nth0 predatorIndex Init of None \<Rightarrow> [] | Some InitPred \<Rightarrow>
        case nth0 preyIndex Init of None \<Rightarrow> [] | Some InitPrey \<Rightarrow>
        (let TargetPred = InitPred - PredCount;
             TargetPrey = InitPrey - PreyCount
         in concat (map (\<lambda>_. safe_body rest Counts Init)
              (disj_goal (TargetPrey = 0) (TargetPrey \<ge> TargetPred)))))
        (disj_goal (PreyCount = 0) (PreyCount \<ge> PredCount))))"

definition safe :: "prolog_program \<Rightarrow> state \<Rightarrow> unit list" where
  "safe prog st = safe_body (safe_clauses prog) (fst st) (init_counts prog)"

text \<open>
  \<^verbatim>\<open>
  apply_move_subtract([], [], []).
  apply_move_subtract([X|Xs], [Y|Ys], [Z|Zs]) :-
      Z is X - Y, Z >= 0, apply_move_subtract(Xs, Ys, Zs).

  apply_move_add([], [], [], []).
  apply_move_add([X|Xs], [I|Is], [Y|Ys], [Z|Zs]) :-
      Available is I - X, Y =< Available, Z is X + Y, apply_move_add(Xs, Is, Ys, Zs).
  \<close>
  Both are called with every list but the last bound; lists of different lengths match
  no clause.
\<close>

fun apply_move_subtract :: "int list \<Rightarrow> int list \<Rightarrow> int list option" where
  "apply_move_subtract [] [] = Some []"
| "apply_move_subtract (X # Xs) (Y # Ys) =
     (let Z = X - Y
      in if Z \<ge> 0 then map_option ((#) Z) (apply_move_subtract Xs Ys) else None)"
| "apply_move_subtract _ _ = None"

fun apply_move_add :: "int list \<Rightarrow> int list \<Rightarrow> int list \<Rightarrow> int list option" where
  "apply_move_add [] [] [] = Some []"
| "apply_move_add (X # Xs) (I # Is) (Y # Ys) =
     (let Available = I - X
      in if Y \<le> Available then map_option ((#) (X + Y)) (apply_move_add Xs Is Ys) else None)"
| "apply_move_add _ _ _ = None"

text \<open>
  \<^verbatim>\<open>
  transition_with_move(state(Counts,start), Move, state(NewCounts,target)) :-
      move(Move), apply_move_subtract(Counts, Move, NewCounts), safe(state(NewCounts,target)).
  transition_with_move(state(Counts,target), Move, state(NewCounts,start)) :-
      move(Move), init_counts(Init), apply_move_add(Counts, Init, Move, NewCounts),
      safe(state(NewCounts,start)).
  \<close>
  The answers for a bound state and unbound \<open>Move\<close> and new state: the pairs of a move and
  the state it leads to, move facts tried in their order. A program with no \<^verbatim>\<open>move/1\<close>
  fact at all (no species, or a negative capacity) has no such predicate, and an engine
  may raise an existence error where the model has no answer: in both no step is
  permitted.
\<close>

fun transition_with_move :: "prolog_program \<Rightarrow> state \<Rightarrow> (int list \<times> state) list" where
  "transition_with_move prog (Counts, start) =
     concat (map (\<lambda>Move.
       case apply_move_subtract Counts Move of None \<Rightarrow> []
       | Some NewCounts \<Rightarrow>
           map (\<lambda>_. (Move, (NewCounts, target))) (safe prog (NewCounts, target)))
       (move_facts prog))"
| "transition_with_move prog (Counts, target) =
     concat (map (\<lambda>Move.
       case apply_move_add Counts (init_counts prog) Move of None \<Rightarrow> []
       | Some NewCounts \<Rightarrow>
           map (\<lambda>_. (Move, (NewCounts, start))) (safe prog (NewCounts, start)))
       (move_facts prog))"

text \<open>
  The entry of a count vector for the species of a given name: the entry at the position
  that \<^verbatim>\<open>speciesNames.indexOf(name)\<close> gives, as the compiler looks species up.
\<close>

definition count_of :: "Config \<Rightarrow> int list \<Rightarrow> string \<Rightarrow> int" where
  "count_of config v nm = v ! nat (indexOf (map name (species config)) nm)"

section \<open>Checking a list of steps\<close>

text \<open>
  \<^verbatim>\<open>
  check_solution([], State) :- final_state(State).
  check_solution([step(Move, leftToRight)|Rest], state(Counts, start)) :-
      transition_with_move(state(Counts, start), Move, state(NewCounts, target)),
      check_solution(Rest, state(NewCounts, target)).
  check_solution([step(Move, rightToLeft)|Rest], state(Counts, target)) :-
      transition_with_move(state(Counts, target), Move, state(NewCounts, start)),
      check_solution(Rest, state(NewCounts, start)).
  \<close>
  Here \<open>Move\<close> is bound: of the answers of \<^verbatim>\<open>transition_with_move\<close> those with this move
  remain.
\<close>

datatype direction = leftToRight | rightToLeft

type_synonym step = "int list \<times> direction"

fun check_solution :: "prolog_program \<Rightarrow> step list \<Rightarrow> state \<Rightarrow> unit list" where
  "check_solution prog [] State = (if State = final_state prog then [()] else [])"
| "check_solution prog ((Move, leftToRight) # Rest) (Counts, start) =
     concat (map (\<lambda>(M, NextState). if M = Move then check_solution prog Rest NextState else [])
       (transition_with_move prog (Counts, start)))"
| "check_solution prog ((Move, rightToLeft) # Rest) (Counts, target) =
     concat (map (\<lambda>(M, NextState). if M = Move then check_solution prog Rest NextState else [])
       (transition_with_move prog (Counts, target)))"
| "check_solution prog _ _ = []"

section \<open>Strings\<close>

text \<open>
  The white space of \<^verbatim>\<open>String.prototype.trim\<close> and of \<^verbatim>\<open>\s\<close> in a regular expression,
  among the code units below 256: tab, line feed, vertical tab, form feed, carriage return,
  space and no-break space. \<^verbatim>\<open>\d\<close> is an ASCII digit.
\<close>

definition is_space :: "char \<Rightarrow> bool" where
  "is_space c \<longleftrightarrow> c \<in> set [CHR 0x09, CHR 0x0A, CHR 0x0B, CHR 0x0C, CHR 0x0D, CHR '' '', CHR 0xA0]"

definition is_digit :: "char \<Rightarrow> bool" where
  "is_digit c \<longleftrightarrow> c \<in> set ''0123456789''"

definition trim :: "string \<Rightarrow> string" where
  "trim s = rev (dropWhile is_space (rev (dropWhile is_space s)))"

text \<open>
  \<^verbatim>\<open>s.split(sep)\<close> for a separator that is not empty: the pieces between the occurrences
  of \<open>sep\<close>, found from left to right without overlap. \<open>acc\<close> holds the current piece,
  reversed.
\<close>

function split_from :: "string \<Rightarrow> string \<Rightarrow> string \<Rightarrow> string list" where
  "split_from sep acc [] = [rev acc]"
| "split_from sep acc (c # cs) =
     (if sep \<noteq> [] \<and> take (length sep) (c # cs) = sep
      then rev acc # split_from sep [] (drop (length sep) (c # cs))
      else split_from sep (c # acc) cs)"
  by pat_completeness auto
termination
  by (relation "measure (\<lambda>(sep, acc, s). length s)") (auto simp: neq_Nil_conv)

definition split_on :: "string \<Rightarrow> string \<Rightarrow> string list" where
  "split_on s sep = split_from sep [] s"

text \<open>\<^verbatim>\<open>segments.join(sep)\<close>.\<close>

fun join :: "string \<Rightarrow> string list \<Rightarrow> string" where
  "join sep [] = []"
| "join sep [x] = x"
| "join sep (x # y # ys) = x @ sep @ join sep (y # ys)"

text \<open>
  \<^verbatim>\<open>parseInt(digits, 10)\<close> on a string of digits, and the decimal text of a non-negative
  integer in a template literal. \<open>parseInt\<close> is the exact decimal value. The source
  returns the double nearest to it, which is this value when it is below \<open>2^53\<close>;
  larger values round, and a run of 309 digits or more gives \<^verbatim>\<open>Infinity\<close>.
\<close>

definition digit_val :: "char \<Rightarrow> nat" where
  "digit_val c = of_char c - 48"

definition parseInt :: "string \<Rightarrow> int" where
  "parseInt digits = int (foldl (\<lambda>n c. 10 * n + digit_val c) 0 digits)"

function show_nat :: "nat \<Rightarrow> string" where
  "show_nat n = (if n < 10 then [char_of (48 + n)] else show_nat (n div 10) @ [char_of (48 + n mod 10)])"
  by pat_completeness auto
termination
  by (relation "measure id") auto

declare show_nat.simps [simp del]

section \<open>Encoding a move as a step line\<close>

text \<open>
  \<^verbatim>\<open>
  function sideToText(sideAtom) { return sideAtom.id === "start" ? "left" : "right"; }

  function moveToSentence(moveTerm, species) {
      const [moveList, oldState, newState] = moveTerm.args;
      const direction = sideToText(oldState.args[1]) + " -> " + sideToText(newState.args[1]);
      const amounts = prologListToArray(moveList);
      const segments = [];
      for (let i = 0; i < amounts.length; i++) {
          const count = amounts[i];
          if (count > 0) { const spName = species[i].name; segments.push(`${count} ${spName}`); }
      }
      const crossingWhat = segments.join(", ");
      return `${crossingWhat} cross ${direction}`;
  }
  \<close>
  The loop runs over the amounts with the species from position \<open>i\<close> on; a positive amount
  at a position with no species reads \<^verbatim>\<open>undefined.name\<close>, a \<^verbatim>\<open>TypeError\<close> (\<open>None\<close>).
  The variable \<open>count\<close> of the source is \<open>cnt\<close>, since \<open>count\<close> is the field of a species.
\<close>

definition sideToText :: "side \<Rightarrow> string" where
  "sideToText sideAtom = (if sideAtom = start then ''left'' else ''right'')"

fun move_segments :: "int list \<Rightarrow> Species list \<Rightarrow> string list option" where
  "move_segments [] sp = Some []"
| "move_segments (cnt # amounts) sp =
     (if cnt > 0
      then (case sp of [] \<Rightarrow> None
            | s # _ \<Rightarrow> map_option ((#) (show_nat (nat cnt) @ '' '' @ name s))
                        (move_segments amounts (tl sp)))
      else move_segments amounts (tl sp))"

definition moveToSentence :: "int list \<times> state \<times> state \<Rightarrow> Species list \<Rightarrow> string option" where
  "moveToSentence moveTerm sp =
     (case moveTerm of (moveList, oldState, newState) \<Rightarrow>
       (let direction = sideToText (snd oldState) @ '' -> '' @ sideToText (snd newState)
        in map_option (\<lambda>segments. join '', '' segments @ '' '' @ ''cross'' @ '' '' @ direction)
             (move_segments moveList sp)))"

definition solutionToHumanReadableList ::
    "(int list \<times> state \<times> state) list \<Rightarrow> Species list \<Rightarrow> string list option" where
  "solutionToHumanReadableList solutionTerm sp = those (map (\<lambda>head. moveToSentence head sp) solutionTerm)"

section \<open>Errors\<close>

text \<open>
  The four errors that \<^verbatim>\<open>parseSolutionLines\<close> throws, with the text they quote, and the
  \<^verbatim>\<open>TypeError\<close> of the encoder. A rejected promise of an \<^verbatim>\<open>async\<close> function is the
  left injection of a sum. The program of the model is always well formed, so the consult
  and query errors of the engine have no counterpart.
\<close>

datatype error =
    MissingCross string
  | InvalidDirection string
  | CannotParseSegment string string
  | UnknownSpecies string string
  | TypeError

section \<open>Decoding step lines\<close>

text \<open>
  The regular expression \<^verbatim>\<open>/^(\d+)\s+(\S+)$/\<close> on a trimmed segment: a digit is not white
  space, so a match is one or more digits, then one or more white-space characters, then
  one or more characters that are not white space, up to the end. The groups are the
  digits and the name.
\<close>

definition match_segment :: "string \<Rightarrow> (string \<times> string) option" where
  "match_segment seg =
     (let digits = takeWhile is_digit seg;
          rest = dropWhile is_digit seg;
          spaces = takeWhile is_space rest;
          spName = dropWhile is_space rest
      in if digits \<noteq> [] \<and> spaces \<noteq> [] \<and> spName \<noteq> [] \<and> list_all (\<lambda>c. \<not> is_space c) spName
         then Some (digits, spName) else None)"

text \<open>
  \<^verbatim>\<open>
  for (const segRaw of segments) {
      const seg = segRaw.trim();
      const match = seg.match(/^(\d+)\s+(\S+)$/);
      if (!match) { throw new Error(`Cannot parse segment "${seg}" in line: ${line}`); }
      const count = parseInt(match[1], 10);
      const spName = match[2];
      const idx = speciesNames.indexOf(spName);
      if (idx < 0) { throw new Error(`Unknown species "${spName}" in line: ${line}`); }
      amounts[idx] += count;
  }
  \<close>
\<close>

fun parse_segments :: "string list \<Rightarrow> string \<Rightarrow> string list \<Rightarrow> int list \<Rightarrow> error + int list" where
  "parse_segments speciesNames line [] amounts = Inr amounts"
| "parse_segments speciesNames line (segRaw # segments) amounts =
     (let seg = trim segRaw
      in case match_segment seg of
           None \<Rightarrow> Inl (CannotParseSegment seg line)
         | Some (digits, spName) \<Rightarrow>
             (let cnt = parseInt digits;
                  idx = indexOf speciesNames spName
              in if idx < 0 then Inl (UnknownSpecies spName line)
                 else parse_segments speciesNames line segments
                        (amounts[nat idx := amounts ! nat idx + cnt])))"

text \<open>
  \<^verbatim>\<open>
  const [leftPart, rightPart] = line.split(" cross ");
  if (!rightPart) { throw new Error(`Invalid line (missing ' cross '): ${line}`); }
  const directionStr = rightPart.trim();
  let direction;
  if (directionStr === "left -> right") { direction = "leftToRight"; }
  else if (directionStr === "right -> left") { direction = "rightToLeft"; }
  else { throw new Error(`Invalid direction segment in line: ${line}`); }
  const segments = leftPart.split(",");
  const amounts = new Array(speciesNames.length).fill(0);
  \<close>
  \<open>rightPart\<close> is the second piece of the split; it is falsy when there is none or when it
  is the empty string. Further pieces are ignored.
\<close>

definition parse_line :: "string list \<Rightarrow> string \<Rightarrow> error + step" where
  "parse_line speciesNames line =
     (case split_on line '' cross '' of
        leftPart # rightPart # _ \<Rightarrow>
          if rightPart = [] then Inl (MissingCross line)
          else
            (let directionStr = trim rightPart
             in if directionStr = ''left -> right'' \<or> directionStr = ''right -> left''
                then
                  (let direction = (if directionStr = ''left -> right'' then leftToRight else rightToLeft);
                       segments = split_on leftPart '','';
                       amounts = replicate (length speciesNames) 0
                   in case parse_segments speciesNames line segments amounts of
                        Inl e \<Rightarrow> Inl e
                      | Inr amounts \<Rightarrow> Inr (amounts, direction))
                else Inl (InvalidDirection line))
      | _ \<Rightarrow> Inl (MissingCross line))"

fun parse_lines :: "string list \<Rightarrow> string list \<Rightarrow> error + step list" where
  "parse_lines speciesNames [] = Inr []"
| "parse_lines speciesNames (line # solutionLines) =
     (case parse_line speciesNames line of
        Inl e \<Rightarrow> Inl e
      | Inr st \<Rightarrow>
          (case parse_lines speciesNames solutionLines of
             Inl e \<Rightarrow> Inl e
           | Inr steps \<Rightarrow> Inr (st # steps)))"

definition parseSolutionLines :: "Config \<Rightarrow> string list \<Rightarrow> error + step list" where
  "parseSolutionLines config solutionLines = parse_lines (map name (species config)) solutionLines"

section \<open>Verifying a candidate solution\<close>

text \<open>
  \<^verbatim>\<open>
  export async function checkUserSolution(prologProgram, config, solutionLines) {
      const stepsArray = parseSolutionLines(config, solutionLines);
      const stepsPrologList = "[" + stepsArray.map(stepToPrologTerm).join(",") + "]";
      ... consult prologProgram ...
      query: initial_state(Init), check_solution(stepsPrologList, Init).
      let isValid = false;  ... isValid = true on the first answer ...
      return isValid;
  }
  \<close>
  \<^verbatim>\<open>parseSolutionLines\<close> is called outside any \<^verbatim>\<open>try\<close>: what it throws rejects the promise
  that \<^verbatim>\<open>checkUserSolution\<close> returns. \<^verbatim>\<open>stepToPrologTerm\<close> writes a step as the text
  \<^verbatim>\<open>step([amounts],direction)\<close> of the query; the model hands the step itself to
  \<open>check_solution\<close>. The program is the one that the caller passes, which it compiled
  from the config. An amount of \<open>2^53\<close> or more, which the source holds rounded and
  writes into the query as the text of a double, is outside the model.
\<close>

definition checkUserSolution :: "prolog_program \<Rightarrow> Config \<Rightarrow> string list \<Rightarrow> error + bool" where
  "checkUserSolution prologProgram config solutionLines =
     (case parseSolutionLines config solutionLines of
        Inl e \<Rightarrow> Inl e
      | Inr stepsArray \<Rightarrow>
          Inr (check_solution prologProgram stepsArray (initial_state prologProgram) \<noteq> []))"

text \<open>
  The caller, \<^verbatim>\<open>logTaskStatus\<close> of the benchmark modal:
  \<^verbatim>\<open>
  let solutionIsValid = false;
  try {
      ...
      solutionIsValid = await checkUserSolution(this.prologProgram, this.config, solution);
  } catch (e) {
      console.error('Error checking solution:', e);
      solutionIsValid = false;
  }
  \<close>
\<close>

definition solutionIsValid :: "prolog_program \<Rightarrow> Config \<Rightarrow> string list \<Rightarrow> bool" where
  "solutionIsValid prologProgram config solution =
     (case checkUserSolution prologProgram config solution of Inl e \<Rightarrow> False | Inr b \<Rightarrow> b)"

text \<open>The errors of the decoder: every error but the \<^verbatim>\<open>TypeError\<close> of the encoder.\<close>

definition decode_error :: "error \<Rightarrow> bool" where
  "decode_error e \<longleftrightarrow> (case e of TypeError \<Rightarrow> False | _ \<Rightarrow> True)"

section \<open>The grammar of a segment\<close>

text \<open>
  A segment in the words of the step-line grammar: an integer written as a run of digits,
  a separator made of white space, and a name without white space. \<open>decoded_segment\<close>
  relates a raw segment to the amount and the species it stands for, and \<open>amount_for\<close>
  adds up the amounts of the decoded segments whose species has position \<open>i\<close>.
  \<open>segment_amount\<close> is the integer of a segment that matches (\<open>0\<close> for one that does
  not), and \<open>line_total\<close> the sum of the integers of all segments of a line: while it is
  below \<open>2^53\<close>, every integer that the decoder reads and every sum that it forms is
  exact as a double.
\<close>

definition is_segment :: "string \<Rightarrow> string \<Rightarrow> string \<Rightarrow> string \<Rightarrow> bool" where
  "is_segment seg digits spaces spName \<longleftrightarrow>
     seg = digits @ spaces @ spName \<and>
     digits \<noteq> [] \<and> list_all is_digit digits \<and>
     spaces \<noteq> [] \<and> list_all is_space spaces \<and>
     spName \<noteq> [] \<and> list_all (\<lambda>c. \<not> is_space c) spName"

definition decoded_segment :: "string list \<Rightarrow> string \<Rightarrow> int \<times> string \<Rightarrow> bool" where
  "decoded_segment speciesNames segRaw p \<longleftrightarrow>
     (\<exists>digits spaces. is_segment (trim segRaw) digits spaces (snd p) \<and>
        fst p = parseInt digits \<and> snd p \<in> set speciesNames)"

definition segment_amount :: "string \<Rightarrow> int" where
  "segment_amount segRaw =
     (case match_segment (trim segRaw) of None \<Rightarrow> 0 | Some (digits, spName) \<Rightarrow> parseInt digits)"

definition line_total :: "string \<Rightarrow> int" where
  "line_total line =
     (case split_on line '' cross '' of
        [] \<Rightarrow> 0
      | leftPart # _ \<Rightarrow> sum_list (map segment_amount (split_on leftPart '','')))"

definition amount_for :: "string list \<Rightarrow> (int \<times> string) list \<Rightarrow> nat \<Rightarrow> int" where
  "amount_for speciesNames parsed i =
     sum_list (map (\<lambda>(cnt, nm). if indexOf speciesNames nm = int i then cnt else 0) parsed)"

section \<open>The lines that the encoder writes\<close>

text \<open>
  A name can be decoded when it is not empty, has no white space and no comma, and is not
  the word \<open>cross\<close>. The encoder writes a segment for every positive amount:
  \<open>segment_text\<close> is the text of one, \<open>more_segments\<close> the text of those that follow the
  first, and \<open>entries\<close> the positive amounts of a move with the names of their species.
  \<open>step_of\<close> is the step that the line of a move of a solution should decode to.
\<close>

definition decodable_name :: "string \<Rightarrow> bool" where
  "decodable_name nm \<longleftrightarrow>
     nm \<noteq> [] \<and> list_all (\<lambda>c. \<not> is_space c \<and> c \<noteq> CHR '','') nm \<and> nm \<noteq> ''cross''"

definition segment_text :: "int \<times> string \<Rightarrow> string" where
  "segment_text e = show_nat (nat (fst e)) @ '' '' @ snd e"

definition more_segments :: "(int \<times> string) list \<Rightarrow> string" where
  "more_segments es = concat (map (\<lambda>e. '', '' @ segment_text e) es)"

definition entries :: "int list \<Rightarrow> Species list \<Rightarrow> (int \<times> string) list" where
  "entries Move sp = map (\<lambda>(c, s). (c, name s)) (filter (\<lambda>(c, s). 0 < c) (zip Move sp))"

definition step_of :: "int list \<times> state \<times> state \<Rightarrow> step" where
  "step_of m = (case m of (Move, S, N) \<Rightarrow> (Move, if snd S = start then leftToRight else rightToLeft))"

section \<open>The config generator\<close>

text \<open>
  \<^verbatim>\<open>Math.random()\<close> is modelled by a sequence \<open>rnd\<close> of draws, consumed in order: the
  position \<open>pos\<close> of the next draw is threaded through the generator. The expression
  \<^verbatim>\<open>Math.floor(Math.random() * m)\<close> is any of \<open>0, \<dots>, m - 1\<close> for a positive \<open>m\<close>, here the
  draw modulo \<open>m\<close>, and \<open>0\<close> for \<open>m = 0\<close>. Every run of the JavaScript is the run of the
  model for some sequence.
\<close>

definition randomIndex :: "(nat \<Rightarrow> nat) \<Rightarrow> nat \<Rightarrow> nat \<Rightarrow> nat" where
  "randomIndex rnd pos m = (if m = 0 then 0 else rnd pos mod m)"

text \<open>
  \<^verbatim>\<open>
  function randomName() {
      const chars = "abcdefghijklmnopqrstuvwxyz";
      let result = "";
      for (let i = 0; i < 5; i++) {
          result += chars.charAt(Math.floor(Math.random() * chars.length));
      }
      return result;
  }
  const species = [];
  for (let i = 0; i < numSpecies; i++) {
      species.push({ name: randomName(), count: numIndividualsPerSpecies });
  }
  \<close>
\<close>

definition randomName :: "(nat \<Rightarrow> nat) \<Rightarrow> nat \<Rightarrow> string \<times> nat" where
  "randomName rnd pos =
     (map (\<lambda>i. ''abcdefghijklmnopqrstuvwxyz'' ! randomIndex rnd (pos + i) 26) [0..<5], pos + 5)"

fun build_species :: "(nat \<Rightarrow> nat) \<Rightarrow> nat \<Rightarrow> nat \<Rightarrow> int \<Rightarrow> Species list \<times> nat" where
  "build_species rnd pos 0 numIndividualsPerSpecies = ([], pos)"
| "build_species rnd pos (Suc k) numIndividualsPerSpecies =
     (case randomName rnd pos of (nm, pos') \<Rightarrow>
      case build_species rnd pos' k numIndividualsPerSpecies of (rest, pos'') \<Rightarrow>
        (\<lparr>name = nm, count = numIndividualsPerSpecies\<rparr> # rest, pos''))"

text \<open>
  The inner loop, which draws the prey again while it is the predator:
  \<^verbatim>\<open>
  let preyIdx = Math.floor(Math.random() * numSpecies);
  while (preyIdx === predIdx) { preyIdx = Math.floor(Math.random() * numSpecies); }
  \<close>
  It has no bound of its own; a run that never leaves it is the value \<open>None\<close>.
\<close>

partial_function (option) resample ::
    "(nat \<Rightarrow> nat) \<Rightarrow> nat \<Rightarrow> nat \<Rightarrow> nat \<Rightarrow> nat \<Rightarrow> (nat \<times> nat) option" where
  "resample rnd numSpecies predIdx preyIdx pos =
     (if preyIdx = predIdx
      then resample rnd numSpecies predIdx (randomIndex rnd pos numSpecies) (pos + 1)
      else Some (preyIdx, pos))"

declare resample.simps [code]

text \<open>
  \<^verbatim>\<open>
  const relationships = [];
  const usedPairs = new Set();
  let attempts = 0;
  while (relationships.length < numRelationships && attempts < 1000) {
      attempts++;
      const predIdx = Math.floor(Math.random() * numSpecies);
      let preyIdx = Math.floor(Math.random() * numSpecies);
      while (preyIdx === predIdx) { ... }
      const key = `${predIdx}-${preyIdx}`;
      if (!usedPairs.has(key)) {
          usedPairs.add(key);
          relationships.push({ predator: species[predIdx].name, prey: species[preyIdx].name });
      }
  }
  \<close>
  The key of a pair of indices is the pair. The loop body goes on after the inner loop
  only with two different indices below \<open>numSpecies\<close>, so both species exist.
\<close>

function relationship_loop ::
    "(nat \<Rightarrow> nat) \<Rightarrow> Species list \<Rightarrow> nat \<Rightarrow> int \<Rightarrow> Relationship list \<Rightarrow> (nat \<times> nat) list
       \<Rightarrow> nat \<Rightarrow> nat \<Rightarrow> Relationship list option" where
  "relationship_loop rnd sp numSpecies numRelationships rels usedPairs attempts pos =
     (if int (length rels) < numRelationships \<and> attempts < 1000
      then
        (let predIdx = randomIndex rnd pos numSpecies;
             preyIdx0 = randomIndex rnd (pos + 1) numSpecies
         in case resample rnd numSpecies predIdx preyIdx0 (pos + 2) of
              None \<Rightarrow> None
            | Some (preyIdx, pos') \<Rightarrow>
                if (predIdx, preyIdx) \<notin> set usedPairs
                then relationship_loop rnd sp numSpecies numRelationships
                       (rels @ [\<lparr>predator = name (sp ! predIdx), prey = name (sp ! preyIdx)\<rparr>])
                       (usedPairs @ [(predIdx, preyIdx)]) (attempts + 1) pos'
                else relationship_loop rnd sp numSpecies numRelationships
                       rels usedPairs (attempts + 1) pos')
      else Some rels)"
  by pat_completeness auto
termination
  by (relation "measure (\<lambda>(rnd, sp, numSpecies, numRelationships, rels, usedPairs, attempts, pos).
        1000 - attempts)") auto

declare relationship_loop.simps [simp del]

text \<open>
  \<^verbatim>\<open>generateRandomConfig(numSpecies, numIndividualsPerSpecies, numRelationships,
  starshipCapacity)\<close> returns \<^verbatim>\<open>{ species, relationships, starshipCapacity }\<close>. The
  last parameter is \<open>capacity\<close> here, \<open>starshipCapacity\<close> being the field of the config.
\<close>

definition generateRandomConfig :: "(nat \<Rightarrow> nat) \<Rightarrow> nat \<Rightarrow> int \<Rightarrow> int \<Rightarrow> int \<Rightarrow> Config option" where
  "generateRandomConfig rnd numSpecies numIndividualsPerSpecies numRelationships capacity =
     (case build_species rnd 0 numSpecies numIndividualsPerSpecies of (sp, pos) \<Rightarrow>
      case relationship_loop rnd sp numSpecies numRelationships [] [] 0 pos of
        None \<Rightarrow> None
      | Some rels \<Rightarrow>
          Some \<lparr> species = sp, relationships = rels, starshipCapacity = capacity \<rparr>)"

section \<open>Example configs\<close>

text \<open>Two species, \<open>cats\<close> (2) and \<open>dogs\<close> (1), capacity 3, no relationships.\<close>

definition scenario2 :: Config where
  "scenario2 = \<lparr> species = [\<lparr>name = ''cats'', count = 2\<rparr>, \<lparr>name = ''dogs'', count = 1\<rparr>],
                 relationships = [], starshipCapacity = 3 \<rparr>"

text \<open>
  Two species, \<open>a\<close> (2) and \<open>b\<close> (2), capacity 2, and \<open>b\<close> must not outnumber \<open>a\<close>.
\<close>

definition scenario1 :: Config where
  "scenario1 = \<lparr> species = [\<lparr>name = ''a'', count = 2\<rparr>, \<lparr>name = ''b'', count = 2\<rparr>],
                 relationships = [\<lparr>predator = ''b'', prey = ''a''\<rparr>], starshipCapacity = 2 \<rparr>"

text \<open>One species, \<open>a\<close> (2), capacity 2, no relationships, and a candidate that goes
  there and back before it moves both.\<close>

definition two_of_a_kind :: Config where
  "two_of_a_kind = \<lparr> species = [\<lparr>name = ''a'', count = 2\<rparr>], relationships = [],
                      starshipCapacity = 2 \<rparr>"

definition there_and_back :: "string list" where
  "there_and_back =
     [''1 a cross left -> right'', ''1 a cross right -> left'', ''2 a cross left -> right'']"

text \<open>One species named \<open>cross\<close> (1), capacity 1, no relationships.\<close>

definition crossing :: Config where
  "crossing = \<lparr> species = [\<lparr>name = ''cross'', count = 1\<rparr>], relationships = [],
                 starshipCapacity = 1 \<rparr>"

text \<open>
  Two species, \<open>a\<close> (1) and \<open>b\<close> (2), capacity 3, and \<open>b\<close> must not outnumber \<open>a\<close>: the
  initial state violates the relationship.
\<close>

definition outnumbered :: Config where
  "outnumbered = \<lparr> species = [\<lparr>name = ''a'', count = 1\<rparr>, \<lparr>name = ''b'', count = 2\<rparr>],
                    relationships = [\<lparr>predator = ''b'', prey = ''a''\<rparr>], starshipCapacity = 3 \<rparr>"

text \<open>One species \<open>a\<close> with no individual, capacity 1, no relationships.\<close>

definition nobody :: Config where
  "nobody = \<lparr> species = [\<lparr>name = ''a'', count = 0\<rparr>], relationships = [], starshipCapacity = 1 \<rparr>"

section \<open>Facts about the move enumeration\<close>

text \<open>
  The enumeration is the filter of the full product \<open>[0..capacity]^n\<close>, listed with the
  first position varying slowest, by the bound on the sum.
\<close>

lemma helper_product:
  "helper cap cur k =
     map ((@) cur) (filter (\<lambda>v. 1 \<le> sum_list cur + sum_list v \<and> sum_list cur + sum_list v \<le> cap)
        (product_lists (replicate k [0..cap])))"
proof (induction k arbitrary: cur)
  case 0
  show ?case by (simp add: Let_def)
next
  case (Suc k)
  show ?case
    by (simp add: Suc.IH filter_concat map_concat filter_map comp_def add.assoc)
qed

lemma generateAllowedMoves_product:
  "generateAllowedMoves n c =
     filter (\<lambda>v. 1 \<le> sum_list v \<and> sum_list v \<le> c) (product_lists (replicate n [0..c]))"
proof -
  have "map ((@) []) xs = xs" for xs :: "int list list"
    by (induction xs) simp_all
  then show ?thesis
    by (simp add: generateAllowedMoves_def helper_product)
qed

lemma list_all2_replicate_right:
  "list_all2 (\<lambda>x ys. x \<in> set ys) v (replicate n xs) \<longleftrightarrow> length v = n \<and> set v \<subseteq> set xs"
proof (induction n arbitrary: v)
  case 0
  show ?case by auto
next
  case (Suc n)
  show ?case by (cases v) (auto simp: Suc.IH)
qed

lemma sorted_wrt_lex_product_lists:
  assumes "\<forall>xs\<in>set xss. sorted_wrt (<) xs"
  shows "sorted_wrt (\<lambda>u v. (u, v) \<in> lexord {(a, b). a < b}) (product_lists (xss :: int list list))"
  using assms
proof (induction xss)
  case Nil
  show ?case by simp
next
  case (Cons xs xss)
  then have IH: "sorted_wrt (\<lambda>u v. (u, v) \<in> lexord {(a, b). a < b}) (product_lists xss)"
    and xs: "sorted_wrt (<) xs" by simp_all
  from xs show ?case
  proof (induction xs)
    case Nil
    show ?case by simp
  next
    case (Cons a as)
    then show ?case using IH
      by (auto simp: sorted_wrt_append sorted_wrt_map)
  qed
qed

lemma generateAllowedMoves_set:
  "set (generateAllowedMoves n c) =
     {v. length v = n \<and> (\<forall>x\<in>set v. 0 \<le> x \<and> x \<le> c) \<and> 1 \<le> sum_list v \<and> sum_list v \<le> c}"
  by (auto simp: generateAllowedMoves_product product_lists_set list_all2_replicate_right)

lemma generateAllowedMoves_distinct: "distinct (generateAllowedMoves n c)"
  by (simp add: generateAllowedMoves_product distinct_product_lists)

lemma generateAllowedMoves_sorted:
  "sorted_wrt (\<lambda>u v. (u, v) \<in> lexord {(a, b). a < b}) (generateAllowedMoves n c)"
  by (simp add: generateAllowedMoves_product sorted_wrt_filter sorted_wrt_lex_product_lists)

section \<open>Facts about the transition rules\<close>

lemma apply_move_subtract_Some:
  "apply_move_subtract Xs Ys = Some Zs \<longleftrightarrow>
     length Xs = length Ys \<and> Zs = map2 (-) Xs Ys \<and> (\<forall>z\<in>set Zs. 0 \<le> z)"
proof (induction Xs Ys arbitrary: Zs rule: apply_move_subtract.induct)
  case 1
  show ?case by auto
next
  case (2 X Xs Y Ys)
  show ?case
  proof (cases "0 \<le> X - Y")
    case True
    then show ?thesis
      using 2 [of "X - Y" "tl Zs"] by (cases Zs) (auto simp: Let_def)
  next
    case False
    then show ?thesis by (auto simp: Let_def)
  qed
qed auto

lemma apply_move_add_Some:
  "apply_move_add Xs Is Ys = Some Zs \<longleftrightarrow>
     length Xs = length Is \<and> length Is = length Ys \<and> Zs = map2 (+) Xs Ys \<and> list_all2 (\<le>) Zs Is"
proof (induction Xs Is Ys arbitrary: Zs rule: apply_move_add.induct)
  case 1
  show ?case by auto
next
  case (2 X Xs I Is Y Ys)
  show ?case
  proof (cases "Y \<le> I - X")
    case True
    then show ?thesis
      using 2 [of "I - X" "tl Zs"] by (cases Zs) (auto simp: Let_def)
  next
    case False
    then show ?thesis by (auto simp: Let_def)
  qed
qed auto

lemma in_set_map_const: "a \<in> (\<lambda>_. b) ` set us \<longleftrightarrow> us \<noteq> [] \<and> a = b"
  by (cases us) auto

lemma transition_with_move_start_iff:
  "(Move, Next) \<in> set (transition_with_move prog (Counts, start)) \<longleftrightarrow>
     Move \<in> set (move_facts prog) \<and>
     (\<exists>Z. apply_move_subtract Counts Move = Some Z \<and> Next = (Z, target) \<and> safe prog (Z, target) \<noteq> [])"
proof -
  have "(Move, Next) \<in> set (case apply_move_subtract Counts M of None \<Rightarrow> []
          | Some NewCounts \<Rightarrow> map (\<lambda>_. (M, (NewCounts, target))) (safe prog (NewCounts, target)))
        \<longleftrightarrow> M = Move \<and> (\<exists>Z. apply_move_subtract Counts Move = Some Z \<and> Next = (Z, target)
               \<and> safe prog (Z, target) \<noteq> [])" for M
    by (cases "apply_move_subtract Counts M") (auto simp: in_set_map_const)
  then show ?thesis by auto
qed

lemma transition_with_move_target_iff:
  "(Move, Next) \<in> set (transition_with_move prog (Counts, target)) \<longleftrightarrow>
     Move \<in> set (move_facts prog) \<and>
     (\<exists>Z. apply_move_add Counts (init_counts prog) Move = Some Z \<and> Next = (Z, start)
          \<and> safe prog (Z, start) \<noteq> [])"
proof -
  have "(Move, Next) \<in> set (case apply_move_add Counts (init_counts prog) M of None \<Rightarrow> []
          | Some NewCounts \<Rightarrow> map (\<lambda>_. (M, (NewCounts, start))) (safe prog (NewCounts, start)))
        \<longleftrightarrow> M = Move \<and> (\<exists>Z. apply_move_add Counts (init_counts prog) Move = Some Z \<and> Next = (Z, start)
               \<and> safe prog (Z, start) \<noteq> [])" for M
    by (cases "apply_move_add Counts (init_counts prog) M") (auto simp: in_set_map_const)
  then show ?thesis by auto
qed

declare transition_with_move.simps [simp del]

lemma move_facts_length:
  "Move \<in> set (move_facts (generatePrologCode config)) \<Longrightarrow> length Move = length (species config)"
  by (simp add: generatePrologCode_def Let_def generateAllowedMoves_set)

lemma init_counts_generated: "init_counts (generatePrologCode config) = map count (species config)"
  by (simp add: generatePrologCode_def Let_def)

section \<open>Facts about the safety predicate\<close>

lemma nth0_Some: "nth0 i xs = Some x \<longleftrightarrow> 0 \<le> i \<and> nat i < length xs \<and> xs ! nat i = x"
proof (induction xs arbitrary: i)
  case Nil
  show ?case by simp
next
  case (Cons h t)
  show ?case
  proof (cases "i = 0")
    case True
    then show ?thesis by auto
  next
    case False
    then show ?thesis
      by (cases "0 < i") (auto simp: Cons.IH nth_Cons' nat_diff_distrib)
  qed
qed

lemma indexOf_mem:
  "x \<in> set xs \<Longrightarrow> 0 \<le> indexOf xs x \<and> nat (indexOf xs x) < length xs \<and> xs ! nat (indexOf xs x) = x"
proof (induction xs)
  case Nil
  then show ?case by simp
next
  case (Cons y ys)
  show ?case
  proof (cases "y = x")
    case True
    then show ?thesis by simp
  next
    case False
    with Cons have "0 \<le> indexOf ys x \<and> nat (indexOf ys x) < length ys \<and> ys ! nat (indexOf ys x) = x"
      by simp
    with False show ?thesis by (simp add: Let_def nat_add_distrib)
  qed
qed

lemma indexOf_not_mem: "x \<notin> set xs \<Longrightarrow> indexOf xs x = -1"
  by (induction xs) (auto simp: Let_def)

lemma disj_goal_nonempty: "disj_goal A B \<noteq> [] \<longleftrightarrow> A \<or> B"
  by (simp add: disj_goal_def)

lemma concat_map_const_nonempty: "concat (map (\<lambda>_. ys) us) \<noteq> [] \<longleftrightarrow> us \<noteq> [] \<and> ys \<noteq> []"
  by (induction us) auto

lemma safe_body_Cons_nonempty:
  "safe_body ((p, q) # rest) Counts Init \<noteq> [] \<longleftrightarrow>
     (\<exists>PredCount PreyCount InitPred InitPrey.
        nth0 p Counts = Some PredCount \<and> nth0 q Counts = Some PreyCount \<and>
        nth0 p Init = Some InitPred \<and> nth0 q Init = Some InitPrey \<and>
        (PreyCount = 0 \<or> PreyCount \<ge> PredCount) \<and>
        (InitPrey - PreyCount = 0 \<or> InitPrey - PreyCount \<ge> InitPred - PredCount)) \<and>
     safe_body rest Counts Init \<noteq> []"
proof (cases "nth0 p Counts")
  case None
  then show ?thesis by simp
next
  case a: (Some a)
  show ?thesis
  proof (cases "nth0 q Counts")
    case None
    then show ?thesis using a by simp
  next
    case b: (Some b)
    show ?thesis
    proof (cases "nth0 p Init")
      case None
      then show ?thesis using a b by (simp add: concat_map_const_nonempty)
    next
      case c: (Some c)
      show ?thesis
      proof (cases "nth0 q Init")
        case None
        then show ?thesis using a b c by (simp add: concat_map_const_nonempty)
      next
        case d: (Some d)
        show ?thesis
          using a b c d
          by (auto simp: concat_map_const_nonempty disj_goal_def Let_def)
      qed
    qed
  qed
qed

lemma safe_body_nonempty:
  "safe_body cls Counts Init \<noteq> [] \<longleftrightarrow>
     (\<forall>(p, q)\<in>set cls. \<exists>PredCount PreyCount InitPred InitPrey.
        nth0 p Counts = Some PredCount \<and> nth0 q Counts = Some PreyCount \<and>
        nth0 p Init = Some InitPred \<and> nth0 q Init = Some InitPrey \<and>
        (PreyCount = 0 \<or> PreyCount \<ge> PredCount) \<and>
        (InitPrey - PreyCount = 0 \<or> InitPrey - PreyCount \<ge> InitPred - PredCount))"
proof (induction cls)
  case Nil
  show ?case by simp
next
  case (Cons cl cls)
  obtain p q where cl: "cl = (p, q)" by (cases cl)
  show ?case
    unfolding cl using Cons.IH
    by (simp only: safe_body_Cons_nonempty list.set ball_simps prod.case) 
qed


lemma safe_generated_iff:
  assumes refs: "\<forall>rel\<in>set (relationships config).
            predator rel \<in> name ` set (species config) \<and> prey rel \<in> name ` set (species config)"
    and len: "length Counts = length (species config)"
  shows "safe (generatePrologCode config) (Counts, sd) \<noteq> [] \<longleftrightarrow>
     (\<forall>rel\<in>set (relationships config).
        (count_of config Counts (prey rel) = 0 \<or>
         count_of config Counts (predator rel) \<le> count_of config Counts (prey rel)) \<and>
        (count_of config (map2 (-) (map count (species config)) Counts) (prey rel) = 0 \<or>
         count_of config (map2 (-) (map count (species config)) Counts) (predator rel)
           \<le> count_of config (map2 (-) (map count (species config)) Counts) (prey rel)))"
proof -
  let ?names = "map name (species config)"
  let ?Init = "map count (species config)"
  have idx: "0 \<le> indexOf ?names nm \<and> nat (indexOf ?names nm) < length (species config)"
    if "nm \<in> name ` set (species config)" for nm
    using indexOf_mem [of nm ?names] that by simp
  have clause: "(\<exists>PredCount PreyCount InitPred InitPrey.
        nth0 (indexOf ?names (predator rel)) Counts = Some PredCount \<and>
        nth0 (indexOf ?names (prey rel)) Counts = Some PreyCount \<and>
        nth0 (indexOf ?names (predator rel)) ?Init = Some InitPred \<and>
        nth0 (indexOf ?names (prey rel)) ?Init = Some InitPrey \<and>
        (PreyCount = 0 \<or> PreyCount \<ge> PredCount) \<and>
        (InitPrey - PreyCount = 0 \<or> InitPrey - PreyCount \<ge> InitPred - PredCount))
     \<longleftrightarrow>
        (count_of config Counts (prey rel) = 0 \<or>
         count_of config Counts (predator rel) \<le> count_of config Counts (prey rel)) \<and>
        (count_of config (map2 (-) ?Init Counts) (prey rel) = 0 \<or>
         count_of config (map2 (-) ?Init Counts) (predator rel)
           \<le> count_of config (map2 (-) ?Init Counts) (prey rel))"
    if rel: "rel \<in> set (relationships config)" for rel
  proof -
    from refs rel have p: "0 \<le> indexOf ?names (predator rel)"
        "nat (indexOf ?names (predator rel)) < length (species config)"
      and q: "0 \<le> indexOf ?names (prey rel)"
        "nat (indexOf ?names (prey rel)) < length (species config)"
      using idx by blast+
    show ?thesis
      using p q len by (simp add: nth0_Some count_of_def)
  qed
  have "safe (generatePrologCode config) (Counts, sd) \<noteq> [] \<longleftrightarrow>
      (\<forall>rel\<in>set (relationships config). \<exists>PredCount PreyCount InitPred InitPrey.
        nth0 (indexOf ?names (predator rel)) Counts = Some PredCount \<and>
        nth0 (indexOf ?names (prey rel)) Counts = Some PreyCount \<and>
        nth0 (indexOf ?names (predator rel)) ?Init = Some InitPred \<and>
        nth0 (indexOf ?names (prey rel)) ?Init = Some InitPrey \<and>
        (PreyCount = 0 \<or> PreyCount \<ge> PredCount) \<and>
        (InitPrey - PreyCount = 0 \<or> InitPrey - PreyCount \<ge> InitPred - PredCount))"
    by (simp add: safe_def generatePrologCode_def Let_def safe_body_nonempty)
  also have "\<dots> \<longleftrightarrow> (\<forall>rel\<in>set (relationships config).
        (count_of config Counts (prey rel) = 0 \<or>
         count_of config Counts (predator rel) \<le> count_of config Counts (prey rel)) \<and>
        (count_of config (map2 (-) ?Init Counts) (prey rel) = 0 \<or>
         count_of config (map2 (-) ?Init Counts) (predator rel)
           \<le> count_of config (map2 (-) ?Init Counts) (prey rel)))"
    using clause by (intro ball_cong refl) 
  finally show ?thesis .
qed

lemma safe_no_relationships:
  "relationships config = [] \<Longrightarrow> safe (generatePrologCode config) st = [()]"
  by (simp add: safe_def generatePrologCode_def Let_def)

section \<open>The search rules\<close>

text \<open>
  Every state that a transition of a compiled program reaches lies in a finite box of
  count vectors: a move has no negative entry, so subtracting moves a count down towards
  \<open>0\<close> and adding moves it up towards the initial count.
\<close>

definition box :: "Config \<Rightarrow> state \<Rightarrow> state set" where
  "box config st =
     {(c, s). length c = length (fst st) \<and>
        (\<forall>i<length c. min 0 (fst st ! i) \<le> c ! i \<and>
                        c ! i \<le> max (fst st ! i) (map count (species config) ! i))}"

lemma finite_box: "finite (box config st)"
proof -
  define n where "n = length (fst st)"
  define A where "A = (\<Union>i<n. {min 0 (fst st ! i) .. max (fst st ! i) (map count (species config) ! i)})"
  have "finite A" by (simp add: A_def)
  then have fin: "finite {c. set c \<subseteq> A \<and> length c = n}"
    by (rule finite_lists_length_eq)
  have "box config st \<subseteq> {c. set c \<subseteq> A \<and> length c = n} \<times> UNIV"
  proof
    fix x assume x: "x \<in> box config st"
    obtain c s where cs: "x = (c, s)" by (cases x)
    from x cs have len: "length c = n"
      and b: "\<forall>i<length c. min 0 (fst st ! i) \<le> c ! i \<and> c ! i \<le> max (fst st ! i) (map count (species config) ! i)"
      by (auto simp: box_def n_def)
    have "set c \<subseteq> A"
    proof
      fix y assume "y \<in> set c"
      then obtain i where i: "i < length c" "c ! i = y" by (auto simp: in_set_conv_nth)
      with b len show "y \<in> A" by (auto simp: A_def)
    qed
    with len cs show "x \<in> {c. set c \<subseteq> A \<and> length c = n} \<times> UNIV" by simp
  qed
  moreover have "finite ({c. set c \<subseteq> A \<and> length c = n} \<times> (UNIV :: side set))"
  proof -
    have "(UNIV :: side set) = {start, target}"
      using side.exhaust by auto
    then have "finite (UNIV :: side set)" by (metis finite.emptyI finite.insertI)
    with fin show ?thesis by simp
  qed
  ultimately show ?thesis by (rule finite_subset)
qed

lemma move_facts_nonneg:
  "Move \<in> set (move_facts (generatePrologCode config)) \<Longrightarrow> \<forall>y\<in>set Move. 0 \<le> y"
  by (simp add: generatePrologCode_def Let_def generateAllowedMoves_set)

lemma transition_in_box:
  assumes "(Move, Next) \<in> set (transition_with_move (generatePrologCode config) State)"
  shows "Next \<in> box config State \<and> box config Next \<subseteq> box config State"
proof -
  let ?prog = "generatePrologCode config"
  obtain Counts sd where State: "State = (Counts, sd)" by (cases State)
  have init: "init_counts ?prog = map count (species config)"
    by (simp add: generatePrologCode_def Let_def)
  from assms have mv: "Move \<in> set (move_facts ?prog)"
    by (cases sd) (auto simp: State transition_with_move_start_iff transition_with_move_target_iff)
  then have nonneg: "\<forall>y\<in>set Move. 0 \<le> y" by (rule move_facts_nonneg)
  show ?thesis
  proof (cases sd)
    case start
    with assms State obtain Z where Z: "apply_move_subtract Counts Move = Some Z" "Next = (Z, target)"
      by (auto simp: transition_with_move_start_iff)
    then have len: "length Counts = length Move" and Zeq: "Z = map2 (-) Counts Move"
      and Zpos: "\<forall>z\<in>set Z. 0 \<le> z"
      by (simp_all add: apply_move_subtract_Some)
    have lenZ: "length Z = length Counts" using len Zeq by simp
    have nth: "0 \<le> Z ! i \<and> Z ! i \<le> Counts ! i" if "i < length Counts" for i
    proof -
      have "Z ! i = Counts ! i - Move ! i" using that len Zeq by simp
      moreover have "0 \<le> Move ! i" using nonneg that len by simp
      moreover have "0 \<le> Z ! i" using Zpos that lenZ by simp
      ultimately show ?thesis by simp
    qed
    show ?thesis
      using nth lenZ by (fastforce simp: box_def State Z)
  next
    case target
    with assms State obtain Z where Z: "apply_move_add Counts (init_counts ?prog) Move = Some Z"
        "Next = (Z, start)"
      by (auto simp: transition_with_move_target_iff)
    then have len: "length Counts = length (init_counts ?prog)" "length (init_counts ?prog) = length Move"
      and Zeq: "Z = map2 (+) Counts Move"
      and Zle: "list_all2 (\<le>) Z (init_counts ?prog)"
      by (auto simp: apply_move_add_Some)
    have lenZ: "length Z = length Counts" using len Zeq by simp
    have nth: "Counts ! i \<le> Z ! i \<and> Z ! i \<le> map count (species config) ! i" if "i < length Counts" for i
    proof -
      have "Z ! i = Counts ! i + Move ! i" using that len Zeq by simp
      moreover have "0 \<le> Move ! i" using nonneg that len by simp
      moreover have "Z ! i \<le> init_counts ?prog ! i"
        using Zle that lenZ by (simp add: list_all2_conv_all_nth)
      ultimately show ?thesis by (simp add: init)
    qed
    show ?thesis
      using nth lenZ by (fastforce simp: box_def State Z)
  qed
qed

text \<open>
  \<^verbatim>\<open>
  path(State, _, []) :- final_state(State).
  path(State, Visited, [move(Move,State,NextState)|Moves]) :-
      transition_with_move(State, Move, NextState),
      not_member(NextState, Visited),
      path(NextState, [NextState|Visited], Moves).
  \<close>
  The answers for a bound state and visited list, in the order of the depth-first search:
  both clauses are tried at every state. The program is the one compiled from the config;
  the search ends because a new state is never one of the visited ones and the box is
  finite.
\<close>

function path :: "Config \<Rightarrow> state \<Rightarrow> state list \<Rightarrow> (int list \<times> state \<times> state) list list" where
  "path config State Visited =
     (if State = final_state (generatePrologCode config) then [[]] else []) @
     concat (map (\<lambda>(Move, NextState).
        if NextState \<notin> set Visited
        then map (\<lambda>Moves. (Move, State, NextState) # Moves)
               (path config NextState (NextState # Visited))
        else [])
       (transition_with_move (generatePrologCode config) State))"
  by pat_completeness auto
termination
proof (relation "measure (\<lambda>(config, State, Visited). card (box config State - set Visited))")
  show "wf (measure (\<lambda>(config, State, Visited). card (box config State - set Visited)))"
    by simp
next
  fix config State Visited x Move NextState
  assume x: "x \<in> set (transition_with_move (generatePrologCode config) State)"
    and xeq: "(Move, NextState) = x" and nv: "NextState \<notin> set Visited"
  from x xeq have "(Move, NextState) \<in> set (transition_with_move (generatePrologCode config) State)"
    by simp
  then have inb: "NextState \<in> box config State" and sub: "box config NextState \<subseteq> box config State"
    using transition_in_box by blast+
  have "box config NextState - set (NextState # Visited) \<subset> box config State - set Visited"
    using inb sub nv by auto
  moreover have "finite (box config State - set Visited)"
    by (simp add: finite_box)
  ultimately have "card (box config NextState - set (NextState # Visited)) < card (box config State - set Visited)"
    by (rule psubset_card_mono [rotated])
  then show "((config, NextState, NextState # Visited), (config, State, Visited))
      \<in> measure (\<lambda>(config, State, Visited). card (box config State - set Visited))"
    by simp
qed

declare path.simps [simp del]

section \<open>Solving\<close>

text \<open>
  \<^verbatim>\<open>
  solve_solution(Solution) :- initial_state(Initial), path(Initial, [Initial], Solution).
  \<close>
  A solution is a list of terms \<^verbatim>\<open>move(Move,State,NextState)\<close>, here triples;
  \<^verbatim>\<open>prologListToArray\<close> reads the list of a term back into an array, which the model
  has as it is.
\<close>

definition solve_solution :: "Config \<Rightarrow> (int list \<times> state \<times> state) list list" where
  "solve_solution config =
     (let Initial = initial_state (generatePrologCode config)
      in path config Initial [Initial])"

text \<open>
  \<^verbatim>\<open>solveProblem\<close>: the answers of \<^verbatim>\<open>solve_solution(Sol)\<close> are gathered until the engine
  has no more, each turned into step lines.
\<close>

definition solveProblem :: "Config \<Rightarrow> error + string list list" where
  "solveProblem config =
     (case those (map (\<lambda>solutionTerm. solutionToHumanReadableList solutionTerm (species config))
                   (solve_solution config))
      of None \<Rightarrow> Inl TypeError | Some solutions \<Rightarrow> Inr solutions)"

section \<open>Facts about the decoder\<close>

lemma parse_segments_error:
  "parse_segments speciesNames line segments amounts = Inl e \<Longrightarrow> decode_error e"
proof (induction segments arbitrary: amounts)
  case Nil
  then show ?case by simp
next
  case (Cons segRaw segments)
  then show ?case
    by (auto simp: Let_def decode_error_def split: option.splits prod.splits if_splits)
qed

lemma parse_line_error: "parse_line speciesNames line = Inl e \<Longrightarrow> decode_error e"
  unfolding parse_line_def
  by (auto simp: Let_def decode_error_def split: list.splits if_splits sum.splits
      dest: parse_segments_error)

lemma parse_lines_error: "parse_lines speciesNames solutionLines = Inl e \<Longrightarrow> decode_error e"
proof (induction solutionLines arbitrary: e)
  case Nil
  then show ?case by simp
next
  case (Cons line solutionLines)
  then show ?case
    by (auto split: sum.splits dest: parse_line_error)
qed

lemma space_not_digit: "is_space c \<Longrightarrow> \<not> is_digit c"
  by (auto simp: is_space_def is_digit_def)

lemma is_segment_unique:
  assumes "is_segment seg digits spaces spName"
  shows "digits = takeWhile is_digit seg"
    and "spaces = takeWhile is_space (dropWhile is_digit seg)"
    and "spName = dropWhile is_space (dropWhile is_digit seg)"
proof -
  from assms have seg: "seg = digits @ spaces @ spName"
    and d: "\<forall>c\<in>set digits. is_digit c"
    and s: "spaces \<noteq> []" "\<forall>c\<in>set spaces. is_space c"
    and n: "spName \<noteq> []" "\<forall>c\<in>set spName. \<not> is_space c"
    by (auto simp: is_segment_def list_all_iff)
  from s obtain c cs where sc: "spaces = c # cs" and c: "is_space c" by (cases spaces) auto
  from n obtain m ms where nm: "spName = m # ms" and m: "\<not> is_space m" by (cases spName) auto
  have tw: "takeWhile is_digit (spaces @ spName) = []"
    using c by (simp add: sc space_not_digit)
  have dw: "dropWhile is_digit (spaces @ spName) = spaces @ spName"
    using c by (simp add: sc space_not_digit)
  show "digits = takeWhile is_digit seg"
    using d by (simp add: seg takeWhile_append2 tw)
  have rest: "dropWhile is_digit seg = spaces @ spName"
    using d by (simp add: seg dropWhile_append2 dw)
  show "spaces = takeWhile is_space (dropWhile is_digit seg)"
    using s(2) m by (simp add: rest takeWhile_append2 nm)
  show "spName = dropWhile is_space (dropWhile is_digit seg)"
    using s(2) m by (simp add: rest dropWhile_append2 nm)
qed

lemma match_segment_Some:
  "match_segment seg = Some (digits, spName) \<longleftrightarrow> (\<exists>spaces. is_segment seg digits spaces spName)"
proof
  assume "match_segment seg = Some (digits, spName)"
  then have dg: "digits = takeWhile is_digit seg" and nm: "spName = dropWhile is_space (dropWhile is_digit seg)"
    and ne: "digits \<noteq> []" "takeWhile is_space (dropWhile is_digit seg) \<noteq> []" "spName \<noteq> []"
    and ns: "list_all (\<lambda>c. \<not> is_space c) spName"
    by (auto simp: match_segment_def Let_def split: if_splits)
  have "seg = takeWhile is_digit seg @ takeWhile is_space (dropWhile is_digit seg)
            @ dropWhile is_space (dropWhile is_digit seg)"
    by simp
  moreover have "list_all is_digit (takeWhile is_digit seg)"
    by (auto simp: list_all_iff dest: set_takeWhileD)
  moreover have "list_all is_space (takeWhile is_space (dropWhile is_digit seg))"
    by (auto simp: list_all_iff dest: set_takeWhileD)
  ultimately have "is_segment seg digits (takeWhile is_space (dropWhile is_digit seg)) spName"
    using ne ns unfolding is_segment_def dg nm by blast
  then show "\<exists>spaces. is_segment seg digits spaces spName" ..
next
  assume "\<exists>spaces. is_segment seg digits spaces spName"
  then obtain spaces where sg: "is_segment seg digits spaces spName" ..
  from is_segment_unique [OF sg] sg show "match_segment seg = Some (digits, spName)"
    by (simp add: match_segment_def Let_def is_segment_def)
qed

lemma indexOf_nonneg_iff: "0 \<le> indexOf xs x \<longleftrightarrow> x \<in> set xs"
  using indexOf_mem [of x xs] indexOf_not_mem [of x xs] by fastforce

lemma indexOf_lt_length: "x \<in> set xs \<Longrightarrow> nat (indexOf xs x) < length xs"
  using indexOf_mem [of x xs] by simp

lemma decoded_segment_iff:
  "decoded_segment speciesNames segRaw (cnt, nm) \<longleftrightarrow>
     (\<exists>digits. match_segment (trim segRaw) = Some (digits, nm) \<and> cnt = parseInt digits \<and>
        nm \<in> set speciesNames)"
  by (auto simp: decoded_segment_def match_segment_Some)

lemma amount_for_Cons:
  "amount_for speciesNames ((cnt, nm) # parsed) i =
     (if indexOf speciesNames nm = int i then cnt else 0) + amount_for speciesNames parsed i"
  by (simp add: amount_for_def)

lemma parse_segments_Inr:
  assumes "length acc = length speciesNames"
  shows "parse_segments speciesNames line segments acc = Inr amounts \<longleftrightarrow>
     (\<exists>parsed. list_all2 (decoded_segment speciesNames) segments parsed \<and>
        length amounts = length speciesNames \<and>
        (\<forall>i<length speciesNames. amounts ! i = acc ! i + amount_for speciesNames parsed i))"
  using assms
proof (induction segments arbitrary: acc)
  case Nil
  have "acc = amounts \<longleftrightarrow>
      length amounts = length speciesNames \<and> (\<forall>i<length speciesNames. amounts ! i = acc ! i)"
    using Nil by (subst list_eq_iff_nth_eq) auto
  then show ?case
    by (simp add: amount_for_def)
next
  case (Cons segRaw segments)
  show ?case
  proof (cases "match_segment (trim segRaw)")
    case None
    then show ?thesis
      by (auto simp: list_all2_Cons1 decoded_segment_iff)
  next
    case (Some m)
    obtain digits nm where m: "m = (digits, nm)" by (cases m)
    show ?thesis
    proof (cases "nm \<in> set speciesNames")
      case False
      then have "indexOf speciesNames nm < 0" by (simp add: indexOf_not_mem)
      with Some m False show ?thesis
        by (auto simp: list_all2_Cons1 decoded_segment_iff Let_def)
    next
      case True
      let ?idx = "indexOf speciesNames nm"
      let ?acc' = "acc[nat ?idx := acc ! nat ?idx + parseInt digits]"
      from True have idx: "0 \<le> ?idx" "nat ?idx < length speciesNames"
        by (simp_all add: indexOf_nonneg_iff indexOf_lt_length)
      have len': "length ?acc' = length speciesNames" using Cons.prems by simp
      have step: "parse_segments speciesNames line (segRaw # segments) acc =
          parse_segments speciesNames line segments ?acc'"
        using Some m idx by (simp add: Let_def)
      have acc': "?acc' ! i = acc ! i + (if ?idx = int i then parseInt digits else 0)"
        if "i < length speciesNames" for i
        using that idx Cons.prems by (auto simp: nth_list_update)
      have dec: "decoded_segment speciesNames segRaw p \<longleftrightarrow> p = (parseInt digits, nm)" for p
        using Some m True by (cases p) (auto simp: decoded_segment_iff)
      show ?thesis
        unfolding step Cons.IH [OF len']
      proof
        assume "\<exists>parsed. list_all2 (decoded_segment speciesNames) segments parsed \<and>
          length amounts = length speciesNames \<and>
          (\<forall>i<length speciesNames. amounts ! i = ?acc' ! i + amount_for speciesNames parsed i)"
        then obtain parsed where p: "list_all2 (decoded_segment speciesNames) segments parsed"
          "length amounts = length speciesNames"
          "\<forall>i<length speciesNames. amounts ! i = ?acc' ! i + amount_for speciesNames parsed i"
          by blast
        have "list_all2 (decoded_segment speciesNames) (segRaw # segments) ((parseInt digits, nm) # parsed)"
          using p(1) dec by simp
        moreover have "\<forall>i<length speciesNames.
            amounts ! i = acc ! i + amount_for speciesNames ((parseInt digits, nm) # parsed) i"
          using p(3) acc' by (simp add: amount_for_Cons)
        ultimately show "\<exists>parsed. list_all2 (decoded_segment speciesNames) (segRaw # segments) parsed \<and>
          length amounts = length speciesNames \<and>
          (\<forall>i<length speciesNames. amounts ! i = acc ! i + amount_for speciesNames parsed i)"
          using p(2) by blast
      next
        assume "\<exists>parsed. list_all2 (decoded_segment speciesNames) (segRaw # segments) parsed \<and>
          length amounts = length speciesNames \<and>
          (\<forall>i<length speciesNames. amounts ! i = acc ! i + amount_for speciesNames parsed i)"
        then obtain parsed where p: "list_all2 (decoded_segment speciesNames) (segRaw # segments) parsed"
          "length amounts = length speciesNames"
          "\<forall>i<length speciesNames. amounts ! i = acc ! i + amount_for speciesNames parsed i"
          by blast
        from p(1) obtain ps where ps: "parsed = (parseInt digits, nm) # ps"
          "list_all2 (decoded_segment speciesNames) segments ps"
          by (auto simp: list_all2_Cons1 dec)
        have "\<forall>i<length speciesNames. amounts ! i = ?acc' ! i + amount_for speciesNames ps i"
          using p(3) acc' by (simp add: ps(1) amount_for_Cons)
        with ps(2) p(2) show "\<exists>parsed. list_all2 (decoded_segment speciesNames) segments parsed \<and>
          length amounts = length speciesNames \<and>
          (\<forall>i<length speciesNames. amounts ! i = ?acc' ! i + amount_for speciesNames parsed i)"
          by blast
      qed
    qed
  qed
qed

text \<open>
  A line decodes to a list of amounts and a direction exactly when it has the two pieces,
  the second names the direction, and every segment of the first decodes.
\<close>

lemma parse_line_Inr:
  "parse_line speciesNames line = Inr (amounts, d) \<longleftrightarrow>
     (\<exists>leftPart rightPart more parsed.
        split_on line '' cross '' = leftPart # rightPart # more \<and>
        (trim rightPart = ''left -> right'' \<and> d = leftToRight \<or>
         trim rightPart = ''right -> left'' \<and> d = rightToLeft) \<and>
        list_all2 (decoded_segment speciesNames) (split_on leftPart '','') parsed \<and>
        length amounts = length speciesNames \<and>
        (\<forall>i<length speciesNames. amounts ! i = amount_for speciesNames parsed i))"
proof (cases "split_on line '' cross ''")
  case Nil
  then show ?thesis by (simp add: parse_line_def)
next
  case (Cons leftPart rest)
  show ?thesis
  proof (cases rest)
    case Nil
    with Cons show ?thesis by (simp add: parse_line_def)
  next
    case rest: (Cons rightPart more)
    have trim_Nil: "trim [] = []" by (simp add: trim_def)
    have segs: "parse_segments speciesNames line (split_on leftPart '','')
          (replicate (length speciesNames) 0) = Inr amounts \<longleftrightarrow>
        (\<exists>parsed. list_all2 (decoded_segment speciesNames) (split_on leftPart '','') parsed \<and>
          length amounts = length speciesNames \<and>
          (\<forall>i<length speciesNames. amounts ! i = amount_for speciesNames parsed i))"
      by (subst parse_segments_Inr) simp_all
    consider (empty) "rightPart = []"
      | (l2r) "rightPart \<noteq> []" "trim rightPart = ''left -> right''"
      | (r2l) "rightPart \<noteq> []" "trim rightPart = ''right -> left''"
      | (other) "rightPart \<noteq> []" "trim rightPart \<noteq> ''left -> right''"
          "trim rightPart \<noteq> ''right -> left''"
      by blast
    then show ?thesis
    proof cases
      case empty
      then show ?thesis
        by (simp add: parse_line_def Cons rest trim_Nil)
    next
      case l2r
      then show ?thesis
        using segs by (auto simp: parse_line_def Cons rest Let_def split: sum.splits)
    next
      case r2l
      then show ?thesis
        using segs by (auto simp: parse_line_def Cons rest Let_def split: sum.splits)
    next
      case other
      then show ?thesis
        by (simp add: parse_line_def Cons rest Let_def)
    qed
  qed
qed

text \<open>
  The amounts that a line decodes to are sums of the integers of its segments: they are
  not negative, and below \<open>2^53\<close> when the total of the line is.
\<close>

lemma parseInt_nonneg: "0 \<le> parseInt digits"
  by (simp add: parseInt_def)

lemma decoded_segment_amount:
  "decoded_segment speciesNames segRaw p \<Longrightarrow> fst p = segment_amount segRaw"
  by (cases p) (auto simp: decoded_segment_iff segment_amount_def)

lemma decoded_segments_amounts:
  "list_all2 (decoded_segment speciesNames) segments parsed \<Longrightarrow>
     map fst parsed = map segment_amount segments"
  by (induction rule: list_all2_induct) (simp_all add: decoded_segment_amount)

lemma amount_for_bounds:
  assumes "\<forall>p\<in>set parsed. 0 \<le> fst p"
  shows "0 \<le> amount_for speciesNames parsed i \<and>
         amount_for speciesNames parsed i \<le> sum_list (map fst parsed)"
  using assms
proof (induction parsed)
  case Nil
  show ?case by (simp add: amount_for_def)
next
  case (Cons p parsed)
  obtain cnt nm where p: "p = (cnt, nm)" by (cases p)
  from Cons show ?case by (auto simp: p amount_for_Cons)
qed

lemma parse_line_amounts_exact:
  assumes ok: "parse_line speciesNames line = Inr (amounts, d)"
    and bound: "line_total line < 2 ^ 53"
  shows "\<forall>a\<in>set amounts. 0 \<le> a \<and> a < 2 ^ 53"
proof -
  from ok obtain leftPart rightPart more parsed where
    sp: "split_on line '' cross '' = leftPart # rightPart # more" and
    dec: "list_all2 (decoded_segment speciesNames) (split_on leftPart '','') parsed" and
    len: "length amounts = length speciesNames" and
    am: "\<forall>i<length speciesNames. amounts ! i = amount_for speciesNames parsed i"
    unfolding parse_line_Inr by blast
  from decoded_segments_amounts [OF dec] sp
  have total: "sum_list (map fst parsed) = line_total line"
    by (simp add: line_total_def)
  have nn: "\<forall>p\<in>set parsed. 0 \<le> fst p"
  proof
    fix p assume "p \<in> set parsed"
    then have "fst p \<in> set (map segment_amount (split_on leftPart '',''))"
      using decoded_segments_amounts [OF dec] by (metis list.set_map image_eqI)
    then show "0 \<le> fst p"
      by (auto simp: segment_amount_def parseInt_nonneg split: option.splits)
  qed
  show ?thesis
  proof
    fix a assume "a \<in> set amounts"
    then obtain i where i: "i < length amounts" "amounts ! i = a"
      by (auto simp: in_set_conv_nth)
    with len am have "a = amount_for speciesNames parsed i" by simp
    with amount_for_bounds [OF nn, of speciesNames i] total bound
    show "0 \<le> a \<and> a < 2 ^ 53" by simp
  qed
qed

section \<open>Facts about the search and the check\<close>

lemma set_path:
  "sol \<in> set (path config State Visited) \<longleftrightarrow>
     (sol = [] \<and> State = final_state (generatePrologCode config)) \<or>
     (\<exists>Move NextState Moves. sol = (Move, State, NextState) # Moves \<and>
        (Move, NextState) \<in> set (transition_with_move (generatePrologCode config) State) \<and>
        NextState \<notin> set Visited \<and>
        Moves \<in> set (path config NextState (NextState # Visited)))"
proof -
  have step: "sol \<in> set (case x of (Move, NextState) \<Rightarrow>
        if NextState \<notin> set Visited
        then map (\<lambda>Moves. (Move, State, NextState) # Moves)
               (path config NextState (NextState # Visited))
        else []) \<longleftrightarrow>
      (\<exists>Move NextState Moves. x = (Move, NextState) \<and> sol = (Move, State, NextState) # Moves \<and>
         NextState \<notin> set Visited \<and> Moves \<in> set (path config NextState (NextState # Visited)))"
    for x
    by (cases x) auto
  show ?thesis
    by (subst path.simps) (simp add: step, blast)
qed

lemma transition_safe:
  "(Move, NextState) \<in> set (transition_with_move prog State) \<Longrightarrow> safe prog NextState \<noteq> []"
  by (cases State; cases "snd State")
    (auto simp: transition_with_move_start_iff transition_with_move_target_iff)

lemma transition_move_fact:
  "(Move, NextState) \<in> set (transition_with_move prog State) \<Longrightarrow> Move \<in> set (move_facts prog)"
  by (cases State; cases "snd State")
    (auto simp: transition_with_move_start_iff transition_with_move_target_iff)

lemma transition_flips_side:
  "(Move, NextState) \<in> set (transition_with_move prog State) \<Longrightarrow> snd NextState \<noteq> snd State"
  by (cases State; cases "snd State")
    (auto simp: transition_with_move_start_iff transition_with_move_target_iff)

lemma path_move_facts:
  "sol \<in> set (path config State Visited) \<Longrightarrow> (Move, S, N) \<in> set sol \<Longrightarrow>
     Move \<in> set (move_facts (generatePrologCode config))"
proof (induction sol arbitrary: State Visited)
  case Nil
  then show ?case by simp
next
  case (Cons m sol)
  from Cons.prems(1) obtain M NextState where
    m: "m = (M, State, NextState)"
    and tr: "(M, NextState) \<in> set (transition_with_move (generatePrologCode config) State)"
    and rest: "sol \<in> set (path config NextState (NextState # Visited))"
    by (subst (asm) set_path) auto
  show ?case
  proof (cases "(Move, S, N) = m")
    case True
    with m tr show ?thesis by (auto dest: transition_move_fact)
  next
    case False
    with Cons.prems(2) have "(Move, S, N) \<in> set sol" by simp
    with Cons.IH rest show ?thesis by blast
  qed
qed

text \<open>
  The final state is reached by a transition, which requires it to be safe. When it is
  not, the search finds nothing from any other state, and the check accepts nothing.
\<close>

lemma path_final_unsafe:
  assumes unsafe: "safe (generatePrologCode config) (final_state (generatePrologCode config)) = []"
    and sol: "sol \<in> set (path config State Visited)"
  shows "sol = [] \<and> State = final_state (generatePrologCode config)"
  using sol
proof (induction sol arbitrary: State Visited)
  case Nil
  then show ?case by (subst (asm) set_path) simp
next
  case (Cons m sol)
  from Cons.prems obtain M NextState where
    tr: "(M, NextState) \<in> set (transition_with_move (generatePrologCode config) State)"
    and rest: "sol \<in> set (path config NextState (NextState # Visited))"
    by (subst (asm) set_path) auto
  from Cons.IH [OF rest] have "NextState = final_state (generatePrologCode config)" by simp
  with transition_safe [OF tr] unsafe show ?case by simp
qed

lemma check_solution_Cons_nonempty:
  "check_solution prog ((Move, d) # Rest) State \<noteq> [] \<longleftrightarrow>
     (\<exists>NextState. (Move, NextState) \<in> set (transition_with_move prog State) \<and>
        (d = leftToRight \<and> snd State = start \<or> d = rightToLeft \<and> snd State = target) \<and>
        check_solution prog Rest NextState \<noteq> [])"
proof -
  obtain Counts sd where State: "State = (Counts, sd)" by (cases State)
  have inner: "(\<exists>x\<in>set ts. (case x of (M, NextState) \<Rightarrow>
               if M = Move then check_solution prog Rest NextState else []) \<noteq> [])
      \<longleftrightarrow> (\<exists>NextState. (Move, NextState) \<in> set ts \<and> check_solution prog Rest NextState \<noteq> [])" for ts
    by (force split: if_splits)
  show ?thesis
    unfolding State by (cases d; cases sd) (simp_all add: inner)
qed

lemma check_solution_final_unsafe:
  assumes unsafe: "safe prog (final_state prog) = []"
    and ok: "check_solution prog steps State \<noteq> []"
  shows "steps = [] \<and> State = final_state prog"
  using ok
proof (induction steps arbitrary: State)
  case Nil
  then show ?case by (simp split: if_splits)
next
  case (Cons st steps)
  obtain Move d where st: "st = (Move, d)" by (cases st)
  from Cons.prems obtain NextState where
    tr: "(Move, NextState) \<in> set (transition_with_move prog State)"
    and rest: "check_solution prog steps NextState \<noteq> []"
    unfolding st check_solution_Cons_nonempty by blast
  from Cons.IH [OF rest] have "NextState = final_state prog" by simp
  with transition_safe [OF tr] unsafe show ?case by simp
qed

lemma nth0_replicate: "nth0 i (replicate n z) = Some x \<longleftrightarrow> 0 \<le> i \<and> nat i < n \<and> x = z"
  by (auto simp: nth0_Some)

lemma safe_initial_iff_final:
  "safe (generatePrologCode config) (initial_state (generatePrologCode config)) \<noteq> [] \<longleftrightarrow>
   safe (generatePrologCode config) (final_state (generatePrologCode config)) \<noteq> []"
proof -
  have "(\<exists>PredCount PreyCount InitPred InitPrey.
          nth0 p (map count (species config)) = Some PredCount \<and>
          nth0 q (map count (species config)) = Some PreyCount \<and>
          nth0 p (map count (species config)) = Some InitPred \<and>
          nth0 q (map count (species config)) = Some InitPrey \<and>
          (PreyCount = 0 \<or> PreyCount \<ge> PredCount) \<and>
          (InitPrey - PreyCount = 0 \<or> InitPrey - PreyCount \<ge> InitPred - PredCount))
      \<longleftrightarrow>
        (\<exists>PredCount PreyCount InitPred InitPrey.
          nth0 p (replicate (length (species config)) 0) = Some PredCount \<and>
          nth0 q (replicate (length (species config)) 0) = Some PreyCount \<and>
          nth0 p (map count (species config)) = Some InitPred \<and>
          nth0 q (map count (species config)) = Some InitPrey \<and>
          (PreyCount = 0 \<or> PreyCount \<ge> PredCount) \<and>
          (InitPrey - PreyCount = 0 \<or> InitPrey - PreyCount \<ge> InitPred - PredCount))" for p q
    by (auto simp: nth0_Some)
  then show ?thesis
    by (simp add: safe_def generatePrologCode_def Let_def safe_body_nonempty)
qed

lemma initial_not_final:
  "initial_state (generatePrologCode config) \<noteq> final_state (generatePrologCode config)"
  by (simp add: generatePrologCode_def Let_def)

lemma unsafe_initial_no_solution:
  assumes "safe (generatePrologCode config) (initial_state (generatePrologCode config)) = []"
  shows "solve_solution config = []"
    and "checkUserSolution (generatePrologCode config) config solutionLines \<noteq> Inr True"
proof -
  from assms safe_initial_iff_final [of config]
  have unsafe: "safe (generatePrologCode config) (final_state (generatePrologCode config)) = []"
    by simp
  have "sol \<notin> set (solve_solution config)" for sol
    using path_final_unsafe [OF unsafe, of sol "initial_state (generatePrologCode config)"]
      initial_not_final [of config]
    by (auto simp: solve_solution_def Let_def)
  then show "solve_solution config = []"
    by (cases "solve_solution config") (simp, force)
  show "checkUserSolution (generatePrologCode config) config solutionLines \<noteq> Inr True"
  proof (cases "parseSolutionLines config solutionLines")
    case (Inl e)
    then show ?thesis by (simp add: checkUserSolution_def)
  next
    case (Inr stepsArray)
    have "check_solution (generatePrologCode config) stepsArray
            (initial_state (generatePrologCode config)) = []"
      using check_solution_final_unsafe [OF unsafe, of stepsArray
          "initial_state (generatePrologCode config)"] initial_not_final [of config]
      by blast
    with Inr show ?thesis by (simp add: checkUserSolution_def)
  qed
qed

section \<open>Facts about the solutions of the search\<close>

text \<open>
  The moves of a solution are move facts, which have one entry per species: the encoder
  never reads a species that is not there, and \<^verbatim>\<open>solveProblem\<close> returns the encoded
  answers of the search.
\<close>

lemma those_map_Some:
  "(\<And>x. x \<in> set xs \<Longrightarrow> f x = Some (g x)) \<Longrightarrow> those (map f xs) = Some (map g xs)"
  by (induction xs) simp_all

lemma move_segments_Some:
  "length amounts \<le> length sp \<Longrightarrow> \<exists>segments. move_segments amounts sp = Some segments"
proof (induction amounts arbitrary: sp)
  case Nil
  show ?case by simp
next
  case (Cons cnt amounts)
  then obtain s sp' where sp: "sp = s # sp'" by (cases sp) auto
  with Cons.prems have "length amounts \<le> length sp'" by simp
  from Cons.IH [OF this] obtain segments where "move_segments amounts sp' = Some segments" ..
  then show ?case by (simp add: sp)
qed

lemma moveToSentence_Some:
  "length Move \<le> length sp \<Longrightarrow> \<exists>line. moveToSentence (Move, S, N) sp = Some line"
  using move_segments_Some [of Move sp] by (auto simp: moveToSentence_def Let_def)

lemma solution_encodes:
  assumes "sol \<in> set (solve_solution config)"
  shows "solutionToHumanReadableList sol (species config) =
           Some (map (\<lambda>head. the (moveToSentence head (species config))) sol)"
  unfolding solutionToHumanReadableList_def
proof (rule those_map_Some)
  fix head assume head: "head \<in> set sol"
  obtain Move S N where h: "head = (Move, S, N)" by (cases head)
  from assms head h have "Move \<in> set (move_facts (generatePrologCode config))"
    unfolding solve_solution_def Let_def by (blast dest: path_move_facts)
  then have "length Move = length (species config)" by (rule move_facts_length)
  with moveToSentence_Some [of Move "species config" S N] h
  show "moveToSentence head (species config) = Some (the (moveToSentence head (species config)))"
    by auto
qed

lemma solveProblem_Inr:
  "solveProblem config =
     Inr (map (\<lambda>sol. map (\<lambda>head. the (moveToSentence head (species config))) sol)
            (solve_solution config))"
proof -
  have "those (map (\<lambda>solutionTerm. solutionToHumanReadableList solutionTerm (species config))
                   (solve_solution config)) =
        Some (map (\<lambda>sol. map (\<lambda>head. the (moveToSentence head (species config))) sol)
            (solve_solution config))"
    by (rule those_map_Some) (rule solution_encodes)
  then show ?thesis by (simp add: solveProblem_def)
qed

lemma member_le_sum_list_int:
  fixes xs :: "int list"
  shows "\<forall>x\<in>set xs. 0 \<le> x \<Longrightarrow> y \<in> set xs \<Longrightarrow> y \<le> sum_list xs"
proof (induction xs)
  case Nil
  then show ?case by simp
next
  case (Cons x xs)
  then have "0 \<le> sum_list xs" by (simp add: sum_list_nonneg)
  with Cons show ?case by auto
qed

lemma map2_minus_self: "map2 (-) xs xs = replicate (length xs) (0::int)"
  by (induction xs) simp_all

lemma everyone_at_once:
  assumes rels: "relationships config = []"
    and nonneg: "\<forall>s\<in>set (species config). 0 \<le> count s"
    and some: "1 \<le> sum_list (map count (species config))"
    and fits: "sum_list (map count (species config)) \<le> starshipCapacity config"
  shows "[(map count (species config), (map count (species config), start),
            (replicate (length (species config)) 0, target))] \<in> set (solve_solution config)"
proof -
  let ?P = "generatePrologCode config"
  let ?Init = "map count (species config)"
  let ?zeros = "replicate (length (species config)) (0::int)"
  have init: "initial_state ?P = (?Init, start)" and final: "final_state ?P = (?zeros, target)"
    by (simp_all add: generatePrologCode_def Let_def)
  from some fits have cap: "starshipCapacity config \<noteq> 0" by simp
  have nn: "\<forall>x\<in>set ?Init. 0 \<le> x" using nonneg by simp
  have "\<forall>x\<in>set ?Init. x \<le> starshipCapacity config"
    using member_le_sum_list_int [OF nn] fits by fastforce
  with nn some fits cap have mv: "?Init \<in> set (move_facts ?P)"
    by (simp add: generatePrologCode_def Let_def generateAllowedMoves_set)
  have sub: "apply_move_subtract ?Init ?Init = Some ?zeros"
    by (simp add: apply_move_subtract_Some map2_minus_self)
  have sf: "safe ?P (?zeros, target) \<noteq> []"
    using safe_no_relationships [OF rels] by simp
  have tr: "(?Init, (?zeros, target)) \<in> set (transition_with_move ?P (?Init, start))"
    using mv sub sf by (simp add: transition_with_move_start_iff)
  have last: "[] \<in> set (path config (?zeros, target) [(?zeros, target), (?Init, start)])"
    by (subst set_path) (simp add: final)
  have "[(?Init, (?Init, start), (?zeros, target))] \<in> set (path config (?Init, start) [(?Init, start)])"
    by (subst set_path) (use tr last in simp)
  then show ?thesis by (simp add: solve_solution_def Let_def init)
qed

section \<open>Facts about the generator\<close>

text \<open>
  With at most one species every index drawn is \<open>0\<close>, so the prey drawn is the predator
  again and again: the inner loop never ends, whatever the draws are.
\<close>

lemma randomIndex_le_one: "numSpecies \<le> 1 \<Longrightarrow> randomIndex rnd pos numSpecies = 0"
  by (cases numSpecies) (auto simp: randomIndex_def)

lemma resample_never_returns:
  assumes one: "numSpecies \<le> 1"
  shows "resample rnd numSpecies 0 0 pos = None"
proof (rule ccontr)
  assume "resample rnd numSpecies 0 0 pos \<noteq> None"
  then obtain y where y: "resample rnd numSpecies 0 0 pos = Some y" by auto
  have "\<not> (numSpecies \<le> 1 \<and> (0::nat) = 0 \<and> (0::nat) = 0)"
  proof (rule resample.raw_induct
      [where P = "\<lambda>rnd n predIdx preyIdx pos y. \<not> (n \<le> 1 \<and> predIdx = 0 \<and> preyIdx = 0)", OF _ y])
    fix resample' :: "(nat \<Rightarrow> nat) \<Rightarrow> nat \<Rightarrow> nat \<Rightarrow> nat \<Rightarrow> nat \<Rightarrow> (nat \<times> nat) option"
      and rnd n predIdx preyIdx pos y
    assume IH: "\<And>rnd n predIdx preyIdx pos y. resample' rnd n predIdx preyIdx pos = Some y \<Longrightarrow>
        \<not> (n \<le> 1 \<and> predIdx = 0 \<and> preyIdx = 0)"
      and step: "(if preyIdx = predIdx
          then resample' rnd n predIdx (randomIndex rnd pos n) (pos + 1)
          else Some (preyIdx, pos)) = Some y"
    show "\<not> (n \<le> 1 \<and> predIdx = 0 \<and> preyIdx = 0)"
    proof
      assume a: "n \<le> 1 \<and> predIdx = 0 \<and> preyIdx = 0"
      with step have "resample' rnd n 0 (randomIndex rnd pos n) (pos + 1) = Some y" by simp
      with a have "resample' rnd n 0 0 (pos + 1) = Some y" by (simp add: randomIndex_le_one)
      from IH [OF this] a show False by simp
    qed
  qed
  with one show False by simp
qed

lemma relationship_loop_never_returns:
  assumes "numSpecies \<le> 1" and "0 < numRelationships"
  shows "relationship_loop rnd sp numSpecies numRelationships [] [] 0 pos = None"
  using assms
  by (subst relationship_loop.simps)
    (simp add: randomIndex_le_one resample_never_returns)

text \<open>
  What the generator returns, when it returns: the species asked for, and no more
  relationships than asked for. The outer loop is bounded by its attempts.
\<close>

lemma relationship_loop_bound:
  "relationship_loop rnd sp numSpecies numRelationships rels usedPairs attempts pos = Some out \<Longrightarrow>
   int (length rels) \<le> max 0 numRelationships \<Longrightarrow>
   int (length out) \<le> max 0 numRelationships"
proof (induction rnd sp numSpecies numRelationships rels usedPairs attempts pos
    rule: relationship_loop.induct)
  case (1 rnd sp numSpecies numRelationships rels usedPairs attempts pos)
  show ?case
  proof (cases "int (length rels) < numRelationships \<and> attempts < 1000")
    case False
    with "1.prems" show ?thesis
      by (subst (asm) relationship_loop.simps) simp
  next
    case True
    let ?predIdx = "randomIndex rnd pos numSpecies"
    let ?preyIdx0 = "randomIndex rnd (pos + 1) numSpecies"
    from "1.prems"(1) True obtain preyIdx pos' where
      rs: "resample rnd numSpecies ?predIdx ?preyIdx0 (pos + 2) = Some (preyIdx, pos')"
      by (subst (asm) relationship_loop.simps) (auto simp: Let_def split: option.splits)
    show ?thesis
    proof (cases "(?predIdx, preyIdx) \<notin> set usedPairs")
      case new: True
      from "1.prems"(1) True rs new
      have "relationship_loop rnd sp numSpecies numRelationships
              (rels @ [\<lparr>predator = name (sp ! ?predIdx), prey = name (sp ! preyIdx)\<rparr>])
              (usedPairs @ [(?predIdx, preyIdx)]) (attempts + 1) pos' = Some out"
        by (subst (asm) relationship_loop.simps) (simp add: Let_def)
      moreover have "int (length (rels @ [\<lparr>predator = name (sp ! ?predIdx), prey = name (sp ! preyIdx)\<rparr>]))
          \<le> max 0 numRelationships"
        using True by simp
      ultimately show ?thesis
        using "1.IH"(1) [OF True refl refl rs refl new] by blast
    next
      case old: False
      from "1.prems"(1) True rs old
      have "relationship_loop rnd sp numSpecies numRelationships rels usedPairs (attempts + 1) pos'
          = Some out"
        by (subst (asm) relationship_loop.simps) (simp add: Let_def)
      then show ?thesis
        using "1.IH"(2) [OF True refl refl rs refl old] "1.prems"(2) by blast
    qed
  qed
qed

lemma build_species_props:
  "build_species rnd pos k c = (sp, pos') \<Longrightarrow> length sp = k \<and> (\<forall>s\<in>set sp. count s = c)"
proof (induction k arbitrary: pos sp pos')
  case 0
  then show ?case by simp
next
  case (Suc k)
  then show ?case
    by (auto split: prod.splits)
qed

lemma generateRandomConfig_returns:
  assumes "generateRandomConfig rnd numSpecies numIndividualsPerSpecies numRelationships capacity
             = Some config"
  shows "length (species config) = numSpecies \<and>
         (\<forall>s\<in>set (species config). count s = numIndividualsPerSpecies) \<and>
         int (length (relationships config)) \<le> max 0 numRelationships \<and>
         starshipCapacity config = capacity"
proof -
  obtain sp pos where b: "build_species rnd 0 numSpecies numIndividualsPerSpecies = (sp, pos)"
    by (cases "build_species rnd 0 numSpecies numIndividualsPerSpecies")
  with assms obtain rels where
    r: "relationship_loop rnd sp numSpecies numRelationships [] [] 0 pos = Some rels"
    and c: "config = \<lparr> species = sp, relationships = rels, starshipCapacity = capacity \<rparr>"
    by (auto simp: generateRandomConfig_def split: option.splits)
  from relationship_loop_bound [OF r] have "int (length rels) \<le> max 0 numRelationships" by simp
  with build_species_props [OF b] c show ?thesis by simp
qed

text \<open>
  The inner loop ends as soon as a draw differs from the predator. When the draws are such
  that this always happens at some point, which needs two species at least, the generator
  returns a config.
\<close>

lemma resample_returns:
  "randomIndex rnd (pos + k) numSpecies \<noteq> predIdx \<Longrightarrow>
     \<exists>r. resample rnd numSpecies predIdx preyIdx pos = Some r"
proof (induction k arbitrary: pos preyIdx)
  case 0
  then show ?case
    by (subst resample.simps, subst resample.simps) simp
next
  case (Suc k)
  from Suc.prems have "randomIndex rnd ((pos + 1) + k) numSpecies \<noteq> predIdx" by simp
  from Suc.IH [OF this] show ?case
    by (subst resample.simps) simp
qed

lemma relationship_loop_returns:
  "\<forall>pos p. \<exists>k. randomIndex rnd (pos + k) numSpecies \<noteq> p \<Longrightarrow>
     \<exists>out. relationship_loop rnd sp numSpecies numRelationships rels usedPairs attempts pos
           = Some out"
proof (induction rnd sp numSpecies numRelationships rels usedPairs attempts pos
    rule: relationship_loop.induct)
  case (1 rnd sp numSpecies numRelationships rels usedPairs attempts pos)
  note fair = "1.prems"
  show ?case
  proof (cases "int (length rels) < numRelationships \<and> attempts < 1000")
    case False
    then show ?thesis by (subst relationship_loop.simps) auto
  next
    case True
    let ?predIdx = "randomIndex rnd pos numSpecies"
    let ?preyIdx0 = "randomIndex rnd (pos + 1) numSpecies"
    from fair obtain k where "randomIndex rnd ((pos + 2) + k) numSpecies \<noteq> ?predIdx" by blast
    from resample_returns [OF this] obtain preyIdx pos' where
      rs: "resample rnd numSpecies ?predIdx ?preyIdx0 (pos + 2) = Some (preyIdx, pos')"
      by fastforce
    show ?thesis
    proof (cases "(?predIdx, preyIdx) \<notin> set usedPairs")
      case new: True
      from "1.IH"(1) [OF True refl refl rs refl new fair] True rs new show ?thesis
        by (subst relationship_loop.simps) (simp add: Let_def)
    next
      case old: False
      from "1.IH"(2) [OF True refl refl rs refl old fair] True rs old show ?thesis
        by (subst relationship_loop.simps) (simp add: Let_def)
    qed
  qed
qed

lemma generateRandomConfig_returns_when_fair:
  assumes "\<forall>pos p. \<exists>k. randomIndex rnd (pos + k) numSpecies \<noteq> p"
  shows "\<exists>config. generateRandomConfig rnd numSpecies numIndividualsPerSpecies numRelationships
           capacity = Some config"
proof -
  obtain sp pos where b: "build_species rnd 0 numSpecies numIndividualsPerSpecies = (sp, pos)"
    by (cases "build_species rnd 0 numSpecies numIndividualsPerSpecies")
  from relationship_loop_returns [OF assms, of sp numRelationships "[]" "[]" 0 pos] b
  show ?thesis by (auto simp: generateRandomConfig_def)
qed

lemma fair_draws_example: "\<forall>pos p. \<exists>k. randomIndex (\<lambda>i. i) (pos + k) 2 \<noteq> p"
proof (intro allI)
  fix pos p :: nat
  have "randomIndex (\<lambda>i. i) (pos + 0) 2 \<noteq> randomIndex (\<lambda>i. i) (pos + 1) 2"
    by (simp add: randomIndex_def) presburger
  then have "randomIndex (\<lambda>i. i) (pos + 0) 2 \<noteq> p \<or> randomIndex (\<lambda>i. i) (pos + 1) 2 \<noteq> p"
    by auto
  then show "\<exists>k. randomIndex (\<lambda>i. i) (pos + k) 2 \<noteq> p" by blast
qed

section \<open>Facts about encoding and then decoding\<close>

text \<open>
  Decimal text and \<^verbatim>\<open>parseInt\<close>, and trimming a text that neither starts nor ends with
  white space.
\<close>

lemma digit_char: "d < 10 \<Longrightarrow> is_digit (char_of (48 + d)) \<and> digit_val (char_of (48 + d)) = d"
proof -
  assume "d < 10"
  then have "d \<in> set [0..<10]" by simp
  moreover have "\<forall>d\<in>set [0..<10]. is_digit (char_of (48 + d)) \<and> digit_val (char_of (48 + d)) = d"
    by code_simp
  ultimately show ?thesis by blast
qed

lemma show_nat_digits: "show_nat n \<noteq> [] \<and> (\<forall>c\<in>set (show_nat n). is_digit c)"
proof (induction n rule: show_nat.induct)
  case (1 n)
  show ?case
  proof (cases "n < 10")
    case True
    then show ?thesis by (subst show_nat.simps, subst show_nat.simps) (simp add: digit_char)
  next
    case False
    with 1 have "\<forall>c\<in>set (show_nat (n div 10)). is_digit c" by simp
    moreover have "is_digit (char_of (48 + n mod 10))" by (simp add: digit_char)
    ultimately show ?thesis using False
      by (subst show_nat.simps, subst (2) show_nat.simps) auto
  qed
qed

lemma parseInt_show_nat: "parseInt (show_nat n) = int n"
proof -
  have "foldl (\<lambda>n c. 10 * n + digit_val c) 0 (show_nat n) = n"
  proof (induction n rule: show_nat.induct)
    case (1 n)
    show ?case
    proof (cases "n < 10")
      case True
      then show ?thesis by (subst show_nat.simps) (simp add: digit_char)
    next
      case False
      with 1 have "foldl (\<lambda>n c. 10 * n + digit_val c) 0 (show_nat (n div 10)) = n div 10" by simp
      with False show ?thesis
        by (subst show_nat.simps) (simp add: digit_char)
    qed
  qed
  then show ?thesis by (simp add: parseInt_def)
qed

lemma trim_padded:
  assumes "s \<noteq> []" "\<not> is_space (hd s)" "\<not> is_space (last s)" "\<forall>c\<in>set ws. is_space c"
  shows "trim (ws @ s) = s"
proof -
  from assms obtain a s' where s: "s = a # s'" and a: "\<not> is_space a" by (cases s) auto
  have "dropWhile is_space (ws @ s) = s"
    using assms(4) a by (simp add: dropWhile_append2 s)
  moreover have "dropWhile is_space (rev s) = rev s"
  proof -
    from assms(1) have eq: "rev s = last s # rev (butlast s)"
      by (induction s) auto
    have "dropWhile is_space (last s # rev (butlast s)) = last s # rev (butlast s)"
      using assms(3) by simp
    then show ?thesis by (simp only: eq [symmetric])
  qed
  ultimately show ?thesis by (simp add: trim_def)
qed

text \<open>
  Splitting the line of the encoder: up to the \<^verbatim>\<open>" cross "\<close> that the encoder wrote, no
  other occurrence starts, given that no name is \<open>cross\<close>.
\<close>

lemma split_cross_skip:
  "c \<noteq> CHR '' '' \<Longrightarrow> split_from '' cross '' acc (c # cs) = split_from '' cross '' (c # acc) cs"
  by auto

lemma split_cross_skips:
  "\<forall>c\<in>set xs. c \<noteq> CHR '' '' \<Longrightarrow>
     split_from '' cross '' acc (xs @ ys) = split_from '' cross '' (rev xs @ acc) ys"
proof (induction xs arbitrary: acc)
  case Nil
  show ?case by simp
next
  case (Cons x xs)
  then show ?case by (simp add: split_cross_skip del: split_from.simps)
qed

lemma split_cross_space:
  "take 6 ys \<noteq> ''cross '' \<Longrightarrow>
     split_from '' cross '' acc (CHR '' '' # ys) = split_from '' cross '' (CHR '' '' # acc) ys"
  by (simp add: eval_nat_numeral)

lemma split_cross_hit:
  "split_from '' cross '' acc ('' cross '' @ rest) = rev acc # split_from '' cross '' [] rest"
  by simp

lemma split_comma_skips:
  "\<forall>c\<in>set xs. c \<noteq> CHR '','' \<Longrightarrow>
     split_from '','' acc (xs @ ys) = split_from '','' (rev xs @ acc) ys"
proof (induction xs arbitrary: acc)
  case Nil
  show ?case by simp
next
  case (Cons x xs)
  then show ?case by simp
qed

lemma split_comma_hit:
  "split_from '','' acc (CHR '','' # rest) = rev acc # split_from '','' [] rest"
  by simp

lemma name_not_cross:
  assumes ns: "\<forall>c\<in>set nm. \<not> is_space c" and nc: "nm \<noteq> ''cross''"
    and x: "x = CHR '','' \<or> x = CHR '' ''"
  shows "take 6 (nm @ x # ys) \<noteq> ''cross ''"
proof
  assume eq: "take 6 (nm @ x # ys) = ''cross ''"
  consider "length nm = 0" | "length nm = 1" | "length nm = 2" | "length nm = 3"
    | "length nm = 4" | "length nm = 5" | "6 \<le> length nm"
    by linarith
  then show False
  proof cases
    case 1
    with eq x show False by auto
  next
    case 2
    then obtain a where "nm = [a]" by (auto simp: length_Suc_conv)
    with eq x show False by auto
  next
    case 3
    then obtain a b where "nm = [a, b]" by (auto simp: length_Suc_conv numeral_2_eq_2)
    with eq x show False by auto
  next
    case 4
    then obtain a b c where "nm = [a, b, c]" by (auto simp: length_Suc_conv numeral_3_eq_3)
    with eq x show False by auto
  next
    case 5
    then have "length nm = Suc (Suc (Suc (Suc 0)))" by simp
    then obtain a b c d where "nm = [a, b, c, d]" by (auto simp: length_Suc_conv)
    with eq x show False by auto
  next
    case 6
    then have "length nm = Suc (Suc (Suc (Suc (Suc 0))))" by simp
    then obtain a b c d e where "nm = [a, b, c, d, e]" by (auto simp: length_Suc_conv)
    with eq x nc show False by auto
  next
    case 7
    then have "take 6 (nm @ x # ys) = take 6 nm" by simp
    with eq have "take 6 nm = ''cross ''" by simp
    then have "set (take 6 nm) = set ''cross ''" by (rule arg_cong)
    then have "CHR '' '' \<in> set (take 6 nm)" by simp
    then have "CHR '' '' \<in> set nm" by (rule in_set_takeD)
    with ns show False by (auto simp: is_space_def)
  qed
qed

lemma digits_not_cross:
  assumes "ds \<noteq> []" "\<forall>c\<in>set ds. is_digit c"
  shows "take 6 (ds @ ys) \<noteq> ''cross ''"
proof -
  from assms obtain d ds' where "ds = d # ds'" "is_digit d" by (cases ds) auto
  then show ?thesis by (auto simp: is_digit_def)
qed

lemma join_segments:
  "join '', '' (map segment_text (e # es)) = segment_text e @ more_segments es"
  by (induction es arbitrary: e) (simp_all add: more_segments_def)

lemma digit_not_space: "is_digit c \<Longrightarrow> c \<noteq> CHR '' ''"
  by (auto simp: is_digit_def)

lemma digit_not_comma: "is_digit c \<Longrightarrow> c \<noteq> CHR '',''"
  by (auto simp: is_digit_def)

lemma decodable_nameD:
  assumes "decodable_name nm"
  shows "nm \<noteq> []" "\<forall>c\<in>set nm. \<not> is_space c" "\<forall>c\<in>set nm. c \<noteq> CHR '' ''"
    "\<forall>c\<in>set nm. c \<noteq> CHR '',''" "nm \<noteq> ''cross''"
  using assms by (auto simp: decodable_name_def list_all_iff is_space_def)

lemma scan_segment_cross:
  assumes nm: "decodable_name (snd e)" and x: "x = CHR '','' \<or> x = CHR '' ''"
  shows "split_from '' cross '' acc (segment_text e @ x # ys) =
         split_from '' cross '' (rev (segment_text e) @ acc) (x # ys)"
proof -
  let ?ds = "show_nat (nat (fst e))"
  have ds: "\<forall>c\<in>set ?ds. c \<noteq> CHR '' ''"
    using show_nat_digits [of "nat (fst e)"] by (auto dest: digit_not_space)
  have "split_from '' cross '' acc (segment_text e @ x # ys) =
        split_from '' cross '' acc (?ds @ (CHR '' '' # snd e @ x # ys))"
    by (simp add: segment_text_def)
  also have "\<dots> = split_from '' cross '' (rev ?ds @ acc) (CHR '' '' # snd e @ x # ys)"
    using ds by (rule split_cross_skips)
  also have "\<dots> = split_from '' cross '' (CHR '' '' # rev ?ds @ acc) (snd e @ x # ys)"
    using name_not_cross [OF decodable_nameD(2) [OF nm] decodable_nameD(5) [OF nm] x]
    by (rule split_cross_space)
  also have "\<dots> = split_from '' cross '' (rev (snd e) @ CHR '' '' # rev ?ds @ acc) (x # ys)"
    using decodable_nameD(3) [OF nm] by (rule split_cross_skips)
  finally show ?thesis by (simp add: segment_text_def)
qed

lemma scan_line_cross:
  assumes "\<forall>e\<in>set (e # es). decodable_name (snd e)"
  shows "split_from '' cross '' acc (segment_text e @ more_segments es @ '' cross '' @ dir) =
         (rev acc @ segment_text e @ more_segments es) # split_from '' cross '' [] dir"
  using assms
proof (induction es arbitrary: e acc)
  case Nil
  have "split_from '' cross '' acc (segment_text e @ CHR '' '' # (''cross '' @ dir)) =
        split_from '' cross '' (rev (segment_text e) @ acc) (CHR '' '' # (''cross '' @ dir))"
    using Nil by (intro scan_segment_cross) simp_all
  also have "\<dots> = rev (rev (segment_text e) @ acc) # split_from '' cross '' [] dir"
    using split_cross_hit [of "rev (segment_text e) @ acc" dir] by simp
  finally show ?case by (simp add: more_segments_def)
next
  case (Cons e' es)
  let ?rest = "more_segments es @ '' cross '' @ dir"
  let ?ds' = "show_nat (nat (fst e'))"
  have seg': "segment_text e' = ?ds' @ CHR '' '' # snd e'" by (simp add: segment_text_def)
  have "split_from '' cross '' acc (segment_text e @ more_segments (e' # es) @ '' cross '' @ dir) =
        split_from '' cross '' acc (segment_text e @ CHR '','' # (CHR '' '' # segment_text e' @ ?rest))"
    by (simp add: more_segments_def)
  also have "\<dots> = split_from '' cross '' (rev (segment_text e) @ acc)
        (CHR '','' # (CHR '' '' # segment_text e' @ ?rest))"
    using Cons.prems by (intro scan_segment_cross) simp_all
  also have "\<dots> = split_from '' cross '' (CHR '','' # rev (segment_text e) @ acc)
        (CHR '' '' # segment_text e' @ ?rest)"
    by (rule split_cross_skip) simp
  also have "\<dots> = split_from '' cross '' (CHR '' '' # CHR '','' # rev (segment_text e) @ acc)
        (segment_text e' @ ?rest)"
  proof (rule split_cross_space)
    have "take 6 (?ds' @ (CHR '' '' # snd e' @ ?rest)) \<noteq> ''cross ''"
      using show_nat_digits [of "nat (fst e')"] by (intro digits_not_cross) simp_all
    then show "take 6 (segment_text e' @ ?rest) \<noteq> ''cross ''" by (simp add: seg')
  qed
  also have "\<dots> = (rev (CHR '' '' # CHR '','' # rev (segment_text e) @ acc) @ segment_text e'
        @ more_segments es) # split_from '' cross '' [] dir"
    using Cons.prems by (intro Cons.IH) simp_all
  finally show ?case by (simp add: more_segments_def)
qed

lemma segment_no_comma:
  assumes "decodable_name (snd e)"
  shows "\<forall>c\<in>set (segment_text e). c \<noteq> CHR '',''"
  using show_nat_digits [of "nat (fst e)"] decodable_nameD(4) [OF assms]
  by (auto simp: segment_text_def dest: digit_not_comma)

lemma scan_line_comma:
  assumes "\<forall>e\<in>set (e # es). decodable_name (snd e)"
  shows "split_from '','' acc (segment_text e @ more_segments es) =
         (rev acc @ segment_text e) # map (\<lambda>e. '' '' @ segment_text e) es"
  using assms
proof (induction es arbitrary: e acc)
  case Nil
  have "split_from '','' acc (segment_text e @ []) = split_from '','' (rev (segment_text e) @ acc) []"
    using Nil by (intro split_comma_skips segment_no_comma) simp
  then show ?case by (simp add: more_segments_def)
next
  case (Cons e' es)
  have "split_from '','' acc (segment_text e @ more_segments (e' # es)) =
        split_from '','' acc (segment_text e @ (CHR '','' # CHR '' '' # segment_text e' @ more_segments es))"
    by (simp add: more_segments_def)
  also have "\<dots> = split_from '','' (rev (segment_text e) @ acc)
        (CHR '','' # CHR '' '' # segment_text e' @ more_segments es)"
    using Cons.prems by (intro split_comma_skips segment_no_comma) simp
  also have "\<dots> = rev (rev (segment_text e) @ acc) #
        split_from '','' [] (CHR '' '' # segment_text e' @ more_segments es)"
    by (rule split_comma_hit)
  also have "split_from '','' [] (CHR '' '' # segment_text e' @ more_segments es) =
        split_from '','' [CHR '' ''] (segment_text e' @ more_segments es)"
    by simp
  also have "\<dots> = (rev [CHR '' ''] @ segment_text e') # map (\<lambda>e. '' '' @ segment_text e) es"
    using Cons.prems by (intro Cons.IH) simp_all
  finally show ?case by simp
qed

text \<open>The amounts that the decoder adds up are the amounts of the move.\<close>

lemma move_segments_entries:
  "length Move \<le> length sp \<Longrightarrow> move_segments Move sp = Some (map segment_text (entries Move sp))"
proof (induction Move arbitrary: sp)
  case Nil
  show ?case by (simp add: entries_def)
next
  case (Cons c Move)
  then obtain s sp' where sp: "sp = s # sp'" by (cases sp) auto
  with Cons.prems have "length Move \<le> length sp'" by simp
  from Cons.IH [OF this] show ?case
    by (simp add: sp entries_def segment_text_def)
qed

lemma entries_nonempty:
  assumes "length Move = length sp" "\<forall>x\<in>set Move. 0 \<le> x" "1 \<le> sum_list Move"
  shows "entries Move sp \<noteq> []"
proof
  assume e: "entries Move sp = []"
  have "\<forall>x\<in>set Move. x = 0"
  proof
    fix x assume "x \<in> set Move"
    then obtain i where i: "i < length Move" "Move ! i = x" by (auto simp: in_set_conv_nth)
    with assms(1) have "(x, sp ! i) \<in> set (zip Move sp)"
      by (auto simp: in_set_zip)
    with e have "\<not> 0 < x" by (auto simp: entries_def filter_empty_conv)
    with assms(2) \<open>x \<in> set Move\<close> show "x = 0" by force
  qed
  then have "sum_list Move = 0" by (induction Move) auto
  with assms(3) show False by simp
qed

lemma entries_props:
  assumes "e \<in> set (entries Move sp)"
  shows "0 < fst e \<and> snd e \<in> name ` set sp"
  using assms by (auto simp: entries_def dest: set_zip_rightD)

lemma sum_zero_other_names:
  "nm \<notin> name ` set sp \<Longrightarrow>
     sum_list (map (\<lambda>(c, s). if name s = nm then c else 0) (zip Move sp)) = (0::int)"
proof (induction sp arbitrary: Move)
  case Nil
  show ?case by simp
next
  case (Cons s sp)
  then show ?case by (cases Move) auto
qed

lemma sum_for_name:
  fixes Move :: "int list"
  assumes "distinct (map name sp)" "length Move = length sp" "i < length sp"
  shows "sum_list (map (\<lambda>(c, s). if name s = name (sp ! i) then c else 0) (zip Move sp)) = Move ! i"
  using assms
proof (induction sp arbitrary: Move i)
  case Nil
  then show ?case by simp
next
  case (Cons s sp)
  then obtain c Move' where Move: "Move = c # Move'" by (cases Move) auto
  show ?case
  proof (cases i)
    case 0
    from Cons.prems(1) have "name s \<notin> name ` set sp" by simp
    then show ?thesis
      using sum_zero_other_names [of "name s" sp Move'] by (simp add: Move 0)
  next
    case (Suc j)
    with Cons.prems have j: "j < length sp" by simp
    with Cons.prems(1) have "name s \<noteq> name (sp ! j)" by auto
    with Cons.IH [of Move' j] Cons.prems j show ?thesis
      by (simp add: Move Suc)
  qed
qed

lemma indexOf_distinct:
  assumes "distinct xs" "i < length xs" "x \<in> set xs"
  shows "indexOf xs x = int i \<longleftrightarrow> x = xs ! i"
proof
  assume "indexOf xs x = int i"
  with indexOf_mem [OF assms(3)] show "x = xs ! i" by simp
next
  assume "x = xs ! i"
  with indexOf_mem [OF assms(3)] have "xs ! nat (indexOf xs x) = xs ! i"
    and r: "0 \<le> indexOf xs x" "nat (indexOf xs x) < length xs" by simp_all
  with assms(1,2) have "nat (indexOf xs x) = i"
    by (simp add: nth_eq_iff_index_eq)
  with r show "indexOf xs x = int i" by simp
qed

lemma sum_list_filter_cong:
  fixes f g :: "'a \<Rightarrow> int"
  assumes "\<And>p. p \<in> set ps \<Longrightarrow> P p \<Longrightarrow> f p = g p"
    and "\<And>p. p \<in> set ps \<Longrightarrow> \<not> P p \<Longrightarrow> g p = 0"
  shows "sum_list (map f (filter P ps)) = sum_list (map g ps)"
  using assms by (induction ps) auto

lemma amount_for_entries:
  assumes d: "distinct (map name sp)" and len: "length Move = length sp"
    and nn: "\<forall>x\<in>set Move. 0 \<le> x" and i: "i < length sp"
  shows "amount_for (map name sp) (entries Move sp) i = Move ! i"
proof -
  have "amount_for (map name sp) (entries Move sp) i =
      sum_list (map (\<lambda>(c, s). if indexOf (map name sp) (name s) = int i then c else 0)
        (filter (\<lambda>(c, s). 0 < c) (zip Move sp)))"
    by (simp add: amount_for_def entries_def comp_def case_prod_unfold cong: if_cong)
  also have "\<dots> = sum_list (map (\<lambda>(c, s). if name s = name (sp ! i) then c else 0) (zip Move sp))"
  proof -
    have "(\<lambda>(c, s). if indexOf (map name sp) (name s) = int i then c else 0) p =
          (\<lambda>(c, s). if name s = name (sp ! i) then c else 0) p"
      if "p \<in> set (zip Move sp)" for p
    proof -
      obtain c s where p: "p = (c, s)" by (cases p)
      from that p have "name s \<in> set (map name sp)" by (auto dest: set_zip_rightD)
      from indexOf_distinct [OF d _ this, of i] i show ?thesis by (simp add: p)
    qed
    moreover have "(\<lambda>(c, s). if name s = name (sp ! i) then c else 0) p = 0"
      if "p \<in> set (zip Move sp)" "\<not> (\<lambda>(c, s). 0 < c) p" for p
    proof -
      obtain c s where p: "p = (c, s)" by (cases p)
      from that p nn have "c = 0" by (force dest: set_zip_leftD)
      then show ?thesis by (simp add: p)
    qed
    ultimately show ?thesis
      by (intro sum_list_filter_cong) blast+
  qed
  also have "\<dots> = Move ! i" using d len i by (rule sum_for_name)
  finally show ?thesis .
qed

text \<open>The line of a move decodes to the move and its direction.\<close>

lemma decoded_padded_segment:
  assumes nm: "decodable_name (snd e)" and pos: "0 < fst e" and mem: "snd e \<in> set speciesNames"
    and ws: "\<forall>c\<in>set ws. is_space c"
  shows "decoded_segment speciesNames (ws @ segment_text e) e"
proof -
  let ?ds = "show_nat (nat (fst e))"
  have ds: "?ds \<noteq> []" "\<forall>c\<in>set ?ds. is_digit c"
    using show_nat_digits [of "nat (fst e)"] by simp_all
  then obtain d ds' where dd: "?ds = d # ds'" "is_digit d" by (cases ?ds) auto
  have seg: "segment_text e = ?ds @ '' '' @ snd e" by (simp add: segment_text_def)
  have "segment_text e \<noteq> []" by (simp add: seg)
  moreover have "\<not> is_space (hd (segment_text e))"
    using dd space_not_digit [of d] by (auto simp: seg)
  moreover have "\<not> is_space (last (segment_text e))"
    using decodable_nameD(1,2) [OF nm] by (simp add: seg)
  ultimately have tr: "trim (ws @ segment_text e) = segment_text e"
    using ws by (intro trim_padded) simp_all
  have "is_segment (segment_text e) ?ds '' '' (snd e)"
    using ds decodable_nameD(1,2) [OF nm]
    by (simp add: is_segment_def seg list_all_iff is_space_def)
  moreover have "fst e = parseInt ?ds"
    using pos by (simp add: parseInt_show_nat)
  ultimately show ?thesis
    using mem unfolding decoded_segment_def tr by blast
qed

lemma direction_texts:
  "split_from '' cross '' [] ''left -> right'' = [''left -> right'']"
  "split_from '' cross '' [] ''right -> left'' = [''right -> left'']"
  "trim ''left -> right'' = ''left -> right''"
  "trim ''right -> left'' = ''right -> left''"
  by code_simp+

lemma parse_encoded_line:
  assumes names: "\<forall>s\<in>set sp. decodable_name (name s)" and d: "distinct (map name sp)"
    and len: "length Move = length sp" and nn: "\<forall>x\<in>set Move. 0 \<le> x"
    and pos: "1 \<le> sum_list Move" and sides: "snd S \<noteq> snd N"
  shows "\<exists>line. moveToSentence (Move, S, N) sp = Some line \<and>
           parse_line (map name sp) line =
             Inr (Move, if snd S = start then leftToRight else rightToLeft)"
proof -
  let ?names = "map name sp"
  define dir where "dir = sideToText (snd S) @ '' -> '' @ sideToText (snd N)"
  define dr where "dr = (if snd S = start then leftToRight else rightToLeft)"
  from entries_nonempty [OF len nn pos] obtain e es where ents: "entries Move sp = e # es"
    by (cases "entries Move sp") auto
  have ok: "\<forall>e'\<in>set (e # es). decodable_name (snd e') \<and> 0 < fst e' \<and> snd e' \<in> set ?names"
    using entries_props [of _ Move sp] names unfolding ents [symmetric] by force
  then have dn: "\<forall>e'\<in>set (e # es). decodable_name (snd e')" by blast
  define J where "J = segment_text e @ more_segments es"
  define line where "line = J @ '' cross '' @ dir"
  define pieces where "pieces = segment_text e # map (\<lambda>e. '' '' @ segment_text e) es"
  have enc: "moveToSentence (Move, S, N) sp = Some line"
    using len join_segments [of e es]
    by (simp add: moveToSentence_def move_segments_entries ents line_def J_def dir_def
        del: join.simps)
  have dir: "dir = ''left -> right'' \<and> dr = leftToRight \<or> dir = ''right -> left'' \<and> dr = rightToLeft"
    using sides unfolding dir_def dr_def
    by (cases "snd S"; cases "snd N") (simp_all add: sideToText_def)
  then have sd: "split_from '' cross '' [] dir = [dir]" and td: "trim dir = dir"
    using direction_texts by auto
  have sp1: "split_on line '' cross '' = [J, dir]"
    unfolding split_on_def line_def J_def using scan_line_cross [OF dn, of "[]" dir] sd
    by (simp del: split_from.simps)
  have sp2: "split_on J '','' = pieces"
    unfolding split_on_def J_def pieces_def using scan_line_comma [OF dn, of "[]"] by simp
  have "list_all2 (decoded_segment ?names) pieces (e # es)"
  proof -
    have "decoded_segment ?names ([] @ segment_text e) e"
      using ok by (intro decoded_padded_segment) simp_all
    moreover have "decoded_segment ?names ('' '' @ segment_text e') e'" if "e' \<in> set es" for e'
      using ok that by (intro decoded_padded_segment) (simp_all add: is_space_def)
    ultimately show ?thesis
      by (simp add: pieces_def list_all2_map1 list_all2_same)
  qed
  moreover have "\<forall>i<length ?names. Move ! i = replicate (length ?names) 0 ! i
        + amount_for ?names (e # es) i"
    using amount_for_entries [OF d len nn] by (simp add: ents)
  ultimately have ps: "parse_segments ?names line pieces (replicate (length ?names) 0) = Inr Move"
    using len by (subst parse_segments_Inr) auto
  from ps have ps': "parse_segments ?names line pieces (replicate (length sp) 0) = Inr Move"
    by simp
  have ne: "dir \<noteq> []" using dir by auto
  have "parse_line ?names line = Inr (Move, dr)"
  proof -
    have "parse_line ?names line =
        (let directionStr = dir
         in if directionStr = ''left -> right'' \<or> directionStr = ''right -> left''
            then (let direction = (if directionStr = ''left -> right'' then leftToRight else rightToLeft);
                      segments = pieces;
                      amounts = replicate (length ?names) 0
                  in case parse_segments ?names line segments amounts of
                       Inl e \<Rightarrow> Inl e
                     | Inr amounts \<Rightarrow> Inr (amounts, direction))
            else Inl (InvalidDirection line))"
      using ne by (simp add: parse_line_def sp1 sp2 td)
    also have "\<dots> = Inr (Move, dr)"
      using dir by (auto simp: Let_def ps')
    finally show ?thesis .
  qed
  with enc show ?thesis unfolding dr_def by blast
qed

text \<open>
  Every solution of the search, encoded, is accepted by the verification, for a config
  whose names are distinct and can be decoded.
\<close>

lemma step_of_triple:
  "step_of (Move, S, N) = (Move, if snd S = start then leftToRight else rightToLeft)"
  by (simp add: step_of_def)

lemma path_transitions:
  "sol \<in> set (path config State Visited) \<Longrightarrow> (Move, S, N) \<in> set sol \<Longrightarrow>
     (Move, N) \<in> set (transition_with_move (generatePrologCode config) S)"
proof (induction sol arbitrary: State Visited)
  case Nil
  then show ?case by simp
next
  case (Cons m sol)
  from Cons.prems(1) obtain M NextState where
    m: "m = (M, State, NextState)"
    and tr: "(M, NextState) \<in> set (transition_with_move (generatePrologCode config) State)"
    and rest: "sol \<in> set (path config NextState (NextState # Visited))"
    by (subst (asm) set_path) auto
  show ?case
  proof (cases "(Move, S, N) = m")
    case True
    with m tr show ?thesis by simp
  next
    case False
    with Cons.prems(2) have "(Move, S, N) \<in> set sol" by simp
    with Cons.IH rest show ?thesis by blast
  qed
qed

lemma path_checks:
  "sol \<in> set (path config State Visited) \<Longrightarrow>
     check_solution (generatePrologCode config) (map step_of sol) State \<noteq> []"
proof (induction sol arbitrary: State Visited)
  case Nil
  then have "State = final_state (generatePrologCode config)"
    by (subst (asm) set_path) simp
  then show ?case by simp
next
  case (Cons m sol)
  from Cons.prems(1) obtain M NextState where
    m: "m = (M, State, NextState)"
    and tr: "(M, NextState) \<in> set (transition_with_move (generatePrologCode config) State)"
    and rest: "sol \<in> set (path config NextState (NextState # Visited))"
    by (subst (asm) set_path) auto
  from Cons.IH [OF rest]
  have "check_solution (generatePrologCode config) (map step_of sol) NextState \<noteq> []" .
  with tr have "\<exists>N. (M, N) \<in> set (transition_with_move (generatePrologCode config) State) \<and>
      check_solution (generatePrologCode config) (map step_of sol) N \<noteq> []"
    by blast
  then show ?case
    by (cases "snd State") (simp_all add: m step_of_triple check_solution_Cons_nonempty)
qed

lemma move_fact_props:
  assumes "Move \<in> set (move_facts (generatePrologCode config))"
  shows "length Move = length (species config)" "\<forall>x\<in>set Move. 0 \<le> x" "1 \<le> sum_list Move"
  using assms by (simp_all add: generatePrologCode_def Let_def generateAllowedMoves_set)

lemma encode_then_parse:
  assumes "\<forall>m\<in>set sol. \<exists>line. moveToSentence m sp = Some line \<and>
              parse_line speciesNames line = Inr (step_of m)"
  shows "\<exists>lines. solutionToHumanReadableList sol sp = Some lines \<and>
           parse_lines speciesNames lines = Inr (map step_of sol)"
  using assms
proof (induction sol)
  case Nil
  show ?case by (simp add: solutionToHumanReadableList_def)
next
  case (Cons m sol)
  then obtain line lines where
    "moveToSentence m sp = Some line" "parse_line speciesNames line = Inr (step_of m)"
    "solutionToHumanReadableList sol sp = Some lines"
    "parse_lines speciesNames lines = Inr (map step_of sol)"
    by auto
  then have "solutionToHumanReadableList (m # sol) sp = Some (line # lines) \<and>
      parse_lines speciesNames (line # lines) = Inr (map step_of (m # sol))"
    by (simp add: solutionToHumanReadableList_def)
  then show ?case by blast
qed

lemma round_trip_solution:
  assumes names: "\<forall>s\<in>set (species config). decodable_name (name s)"
    and d: "distinct (map name (species config))"
    and sol: "sol \<in> set (solve_solution config)"
  shows "\<exists>lines. solutionToHumanReadableList sol (species config) = Some lines \<and>
           checkUserSolution (generatePrologCode config) config lines = Inr True"
proof -
  let ?P = "generatePrologCode config"
  from sol have p: "sol \<in> set (path config (initial_state ?P) [initial_state ?P])"
    by (simp add: solve_solution_def Let_def)
  have "\<exists>line. moveToSentence m (species config) = Some line \<and>
          parse_line (map name (species config)) line = Inr (step_of m)" if m: "m \<in> set sol" for m
  proof -
    obtain Move S N where mm: "m = (Move, S, N)" by (cases m)
    from path_transitions [OF p] m mm
    have tr: "(Move, N) \<in> set (transition_with_move ?P S)" by simp
    note mf = move_fact_props [OF transition_move_fact [OF tr]]
    from transition_flips_side [OF tr] have "snd S \<noteq> snd N" by simp
    from parse_encoded_line [OF names d mf this] show ?thesis
      by (simp add: mm step_of_triple)
  qed
  then obtain lines where
    enc: "solutionToHumanReadableList sol (species config) = Some lines"
    and dec: "parse_lines (map name (species config)) lines = Inr (map step_of sol)"
    using encode_then_parse [of sol "species config" "map name (species config)"] by blast
  from path_checks [OF p] dec
  have "checkUserSolution ?P config lines = Inr True"
    by (simp add: checkUserSolution_def parseSolutionLines_def)
  with enc show ?thesis by blast
qed

lemma round_trip_decodable:
  assumes names: "\<forall>s\<in>set (species config). decodable_name (name s)"
    and d: "distinct (map name (species config))"
    and solved: "solveProblem config = Inr solutions"
    and lines: "lines \<in> set solutions"
  shows "checkUserSolution (generatePrologCode config) config lines = Inr True"
proof -
  from solved lines obtain sol where sol: "sol \<in> set (solve_solution config)"
    and l: "lines = map (\<lambda>head. the (moveToSentence head (species config))) sol"
    by (auto simp: solveProblem_Inr)
  from round_trip_solution [OF names d sol] solution_encodes [OF sol] l
  show ?thesis by auto
qed

section \<open>The claims\<close>

subsection \<open>C1: a decode failure in the verify operation\<close>

text \<open>
  C1 says that for a candidate whose decoding fails \<^verbatim>\<open>checkUserSolution\<close> returns \<open>false\<close>
  and raises nothing. It does not: on the candidate of the spec's scenario 3, the line
  \<^verbatim>\<open>2 cats cross up -> down\<close>, it raises the error of the invalid direction.
\<close>

theorem verify_raises_on_bad_direction:
  "checkUserSolution (generatePrologCode scenario2) scenario2 [''2 cats cross up -> down'']
     = Inl (InvalidDirection ''2 cats cross up -> down'') \<and>
   checkUserSolution (generatePrologCode scenario2) scenario2 [''2 cats cross up -> down'']
     \<noteq> Inr False"
proof -
  have "checkUserSolution (generatePrologCode scenario2) scenario2 [''2 cats cross up -> down'']
     = Inl (InvalidDirection ''2 cats cross up -> down'')"
    by code_simp
  then show ?thesis by simp
qed

text \<open>
  C1, amended. For every candidate whose decoding fails, \<^verbatim>\<open>checkUserSolution\<close> returns
  no boolean: its promise is rejected with the error that the decoder threw, which is one
  of the four decode errors (missing \<^verbatim>\<open>" cross "\<close>, invalid direction, segment that
  cannot be parsed, unknown species). The caller \<^verbatim>\<open>logTaskStatus\<close> catches it and takes
  the solution to be invalid.
\<close>

theorem decode_failure_rejects:
  assumes "parseSolutionLines config solutionLines = Inl e"
  shows "decode_error e \<and>
         checkUserSolution prologProgram config solutionLines = Inl e \<and>
         solutionIsValid prologProgram config solutionLines = False"
  using assms parse_lines_error [of "map name (species config)" solutionLines e]
  by (simp add: checkUserSolution_def solutionIsValid_def parseSolutionLines_def)

theorem decode_failure_rejects_witness:
  "parseSolutionLines scenario2 [''2 cats cross up -> down''] = Inl (InvalidDirection ''2 cats cross up -> down'') \<and>
   checkUserSolution (generatePrologCode scenario2) scenario2 [''2 cats cross up -> down'']
     = Inl (InvalidDirection ''2 cats cross up -> down'') \<and>
   solutionIsValid (generatePrologCode scenario2) scenario2 [''2 cats cross up -> down''] = False"
proof -
  have p: "parseSolutionLines scenario2 [''2 cats cross up -> down'']
      = Inl (InvalidDirection ''2 cats cross up -> down'')"
    by code_simp
  from decode_failure_rejects [OF p, of "generatePrologCode scenario2"] p show ?thesis by simp
qed

subsection \<open>C2: round trip of solve, encode and verify\<close>

text \<open>
  C2 says that every solution that \<^verbatim>\<open>solveProblem\<close> returns, given back to
  \<^verbatim>\<open>checkUserSolution\<close> with the same program and config, is accepted. For a species named
  \<open>cross\<close> the encoder writes \<^verbatim>\<open>1 cross cross left -> right\<close>, and the decoder splits this
  line at the first \<^verbatim>\<open>" cross "\<close>, which is the one before the name: the direction it reads
  is \<^verbatim>\<open>cross left -> right\<close>, and it throws. For names that are distinct, can be decoded
  and are not \<open>cross\<close>, every solution is accepted (lemma \<open>round_trip_decodable\<close>).
\<close>

theorem round_trip_fails_for_species_cross:
  "solveProblem crossing = Inr [[''1 cross cross left -> right'']] \<and>
   split_on ''1 cross cross left -> right'' '' cross '' = [''1'', ''cross left -> right''] \<and>
   checkUserSolution (generatePrologCode crossing) crossing [''1 cross cross left -> right'']
     = Inl (InvalidDirection ''1 cross cross left -> right'') \<and>
   solutionIsValid (generatePrologCode crossing) crossing [''1 cross cross left -> right''] = False"
proof -
  have solved: "solveProblem crossing = Inr [[''1 cross cross left -> right'']]"
    by code_simp
  have pieces: "split_on ''1 cross cross left -> right'' '' cross '' = [''1'', ''cross left -> right'']"
    by code_simp
  have raised: "checkUserSolution (generatePrologCode crossing) crossing [''1 cross cross left -> right'']
     = Inl (InvalidDirection ''1 cross cross left -> right'')"
    by code_simp
  show ?thesis
    by (simp add: solved pieces raised solutionIsValid_def)
qed

subsection \<open>C3: the move facts\<close>

text \<open>
  C3. For a config with \<open>n\<close> species and capacity \<open>c\<close> (not \<open>0\<close>, which the compiler
  replaces by \<open>2\<close>), the \<^verbatim>\<open>move/1\<close> facts of the compiled program are exactly the integer
  vectors of length \<open>n\<close> with every entry in \<open>[0,c]\<close> and sum in \<open>[1,c]\<close>; no fact is emitted
  twice; and they are emitted in the order of the recursive enumeration in which the first
  position varies slowest: the list is strictly increasing in the lexicographic order, and
  it is the full product \<open>[0..c]^n\<close>, first position slowest, filtered by the sum bound.
\<close>

theorem move_facts_exact:
  assumes "starshipCapacity config \<noteq> 0"
  shows "set (move_facts (generatePrologCode config)) =
           {v. length v = length (species config) \<and>
               (\<forall>x\<in>set v. 0 \<le> x \<and> x \<le> starshipCapacity config) \<and>
               1 \<le> sum_list v \<and> sum_list v \<le> starshipCapacity config}
         \<and> distinct (move_facts (generatePrologCode config))
         \<and> sorted_wrt (\<lambda>u v. (u, v) \<in> lexord {(a, b). a < b}) (move_facts (generatePrologCode config))
         \<and> move_facts (generatePrologCode config) =
             filter (\<lambda>v. 1 \<le> sum_list v \<and> sum_list v \<le> starshipCapacity config)
               (product_lists (replicate (length (species config)) [0..starshipCapacity config]))"
proof -
  have mf: "move_facts (generatePrologCode config) =
      generateAllowedMoves (length (species config)) (starshipCapacity config)"
    using assms by (simp add: generatePrologCode_def Let_def)
  show ?thesis
    unfolding mf
    by (intro conjI generateAllowedMoves_set generateAllowedMoves_distinct
        generateAllowedMoves_sorted generateAllowedMoves_product)
qed

theorem move_facts_exact_witness:
  "starshipCapacity scenario2 \<noteq> 0 \<and>
   move_facts (generatePrologCode scenario2) =
     [[0,1],[0,2],[0,3],[1,0],[1,1],[1,2],[2,0],[2,1],[3,0]] \<and>
   (set (move_facts (generatePrologCode scenario2)) =
           {v. length v = length (species scenario2) \<and>
               (\<forall>x\<in>set v. 0 \<le> x \<and> x \<le> starshipCapacity scenario2) \<and>
               1 \<le> sum_list v \<and> sum_list v \<le> starshipCapacity scenario2}
         \<and> distinct (move_facts (generatePrologCode scenario2))
         \<and> sorted_wrt (\<lambda>u v. (u, v) \<in> lexord {(a, b). a < b}) (move_facts (generatePrologCode scenario2))
         \<and> move_facts (generatePrologCode scenario2) =
             filter (\<lambda>v. 1 \<le> sum_list v \<and> sum_list v \<le> starshipCapacity scenario2)
               (product_lists (replicate (length (species scenario2)) [0..starshipCapacity scenario2])))"
proof -
  have c: "starshipCapacity scenario2 \<noteq> 0" by (simp add: scenario2_def)
  have m: "move_facts (generatePrologCode scenario2) =
     [[0,1],[0,2],[0,3],[1,0],[1,1],[1,2],[2,0],[2,1],[3,0]]"
    by code_simp
  show ?thesis
    by (rule conjI [OF c conjI [OF m move_facts_exact [OF c]]])
qed

subsection \<open>C4: the safety predicate\<close>

text \<open>
  C4. \<^verbatim>\<open>safe/1\<close> of the compiled program holds of a state exactly when, for every
  relationship (predator, prey) of the config, the counts of the state satisfy
  (prey count is \<open>0\<close> or prey count \<open>\<ge>\<close> predator count), and the counts of the
  complementary location, initial minus counts, satisfy the same; the clauses of all
  relationships are conjoined. With no relationship, \<^verbatim>\<open>safe/1\<close> holds of every state
  (with exactly one answer). The equivalence is for a config whose relationships name
  species of the config, and for a count vector with one entry per species.
\<close>

theorem safe_exact:
  "(relationships config = [] \<longrightarrow> (\<forall>st. safe (generatePrologCode config) st = [()])) \<and>
   ((\<forall>rel\<in>set (relationships config).
        predator rel \<in> name ` set (species config) \<and> prey rel \<in> name ` set (species config)) \<longrightarrow>
    length Counts = length (species config) \<longrightarrow>
    (safe (generatePrologCode config) (Counts, sd) \<noteq> [] \<longleftrightarrow>
     (\<forall>rel\<in>set (relationships config).
        (count_of config Counts (prey rel) = 0 \<or>
         count_of config Counts (predator rel) \<le> count_of config Counts (prey rel)) \<and>
        (count_of config (map2 (-) (map count (species config)) Counts) (prey rel) = 0 \<or>
         count_of config (map2 (-) (map count (species config)) Counts) (predator rel)
           \<le> count_of config (map2 (-) (map count (species config)) Counts) (prey rel)))))"
  using safe_no_relationships [of config] safe_generated_iff [of config Counts sd] by blast

theorem safe_exact_witness:
  "relationships scenario2 = [] \<and> safe (generatePrologCode scenario2) ([0, 0], start) = [()] \<and>
   safe (generatePrologCode scenario1) ([2, 0], target) \<noteq> [] \<and>
   safe (generatePrologCode scenario1) ([1, 2], start) = []"
proof -
  have r2: "relationships scenario2 = []" by (simp add: scenario2_def)
  have refs: "\<forall>rel\<in>set (relationships scenario1).
        predator rel \<in> name ` set (species scenario1) \<and> prey rel \<in> name ` set (species scenario1)"
    by (simp add: scenario1_def)
  have len: "length [2, 0 :: int] = length (species scenario1)"
    "length [1, 2 :: int] = length (species scenario1)"
    by (simp_all add: scenario1_def)
  have a: "safe (generatePrologCode scenario2) ([0, 0], start) = [()]"
    using safe_exact [of scenario2] r2 by blast
  have b: "safe (generatePrologCode scenario1) ([2, 0], target) \<noteq> []"
    using safe_exact [of scenario1 "[2, 0]" target] refs len(1)
    by (simp add: scenario1_def count_of_def)
  have c: "safe (generatePrologCode scenario1) ([1, 2], start) = []"
    using safe_exact [of scenario1 "[1, 2]" start] refs len(2)
    by (simp add: scenario1_def count_of_def)
  from r2 a b c show ?thesis by simp
qed

subsection \<open>C5: the transition relation\<close>

text \<open>
  C5. \<^verbatim>\<open>transition_with_move\<close> of the compiled program permits exactly two kinds of
  steps. From side \<open>start\<close>, a pair of a move and a next state is an answer exactly when
  the move is a \<^verbatim>\<open>move/1\<close> fact, the next state is on side \<open>target\<close> with the move
  subtracted componentwise from the counts, no resulting component is negative, and the
  next state satisfies \<^verbatim>\<open>safe\<close>. From side \<open>target\<close>, exactly when the move is a
  \<^verbatim>\<open>move/1\<close> fact, the next state is on side \<open>start\<close> with the move added componentwise,
  no resulting component exceeds the initial count of its species, and the next state
  satisfies \<^verbatim>\<open>safe\<close>. The count vector has one entry per species.
\<close>

theorem transition_with_move_exact:
  assumes len: "length Counts = length (species config)"
  shows "((Move, Next) \<in> set (transition_with_move (generatePrologCode config) (Counts, start)) \<longleftrightarrow>
            Move \<in> set (move_facts (generatePrologCode config)) \<and>
            Next = (map2 (-) Counts Move, target) \<and>
            (\<forall>z\<in>set (map2 (-) Counts Move). 0 \<le> z) \<and>
            safe (generatePrologCode config) Next \<noteq> [])
       \<and> ((Move, Next) \<in> set (transition_with_move (generatePrologCode config) (Counts, target)) \<longleftrightarrow>
            Move \<in> set (move_facts (generatePrologCode config)) \<and>
            Next = (map2 (+) Counts Move, start) \<and>
            list_all2 (\<le>) (map2 (+) Counts Move) (map count (species config)) \<and>
            safe (generatePrologCode config) Next \<noteq> [])"
proof (intro conjI)
  show "(Move, Next) \<in> set (transition_with_move (generatePrologCode config) (Counts, start)) \<longleftrightarrow>
            Move \<in> set (move_facts (generatePrologCode config)) \<and>
            Next = (map2 (-) Counts Move, target) \<and>
            (\<forall>z\<in>set (map2 (-) Counts Move). 0 \<le> z) \<and>
            safe (generatePrologCode config) Next \<noteq> []"
    using len move_facts_length [of Move config]
    by (auto simp: transition_with_move_start_iff apply_move_subtract_Some)
next
  show "(Move, Next) \<in> set (transition_with_move (generatePrologCode config) (Counts, target)) \<longleftrightarrow>
            Move \<in> set (move_facts (generatePrologCode config)) \<and>
            Next = (map2 (+) Counts Move, start) \<and>
            list_all2 (\<le>) (map2 (+) Counts Move) (map count (species config)) \<and>
            safe (generatePrologCode config) Next \<noteq> []"
    using len move_facts_length [of Move config]
    by (auto simp: transition_with_move_target_iff apply_move_add_Some init_counts_generated)
qed

theorem transition_with_move_exact_witness:
  "length [2, 2 :: int] = length (species scenario1) \<and>
   ([0, 2], ([2, 0], target)) \<in> set (transition_with_move (generatePrologCode scenario1) ([2, 2], start)) \<and>
   ([1, 0], ([1, 2], target)) \<notin> set (transition_with_move (generatePrologCode scenario1) ([2, 2], start)) \<and>
   ([0, 1], ([2, 1], start)) \<in> set (transition_with_move (generatePrologCode scenario1) ([2, 0], target)) \<and>
   ([0, 1], ([2, 3], start)) \<notin> set (transition_with_move (generatePrologCode scenario1) ([2, 2], target))"
proof -
  have len: "length [2, 2 :: int] = length (species scenario1)"
    "length [2, 0 :: int] = length (species scenario1)"
    by (simp_all add: scenario1_def)
  have mv: "[0, 2] \<in> set (move_facts (generatePrologCode scenario1))"
    "[0, 1] \<in> set (move_facts (generatePrologCode scenario1))"
    by code_simp+
  have sf: "safe (generatePrologCode scenario1) ([2, 0], target) \<noteq> []"
    "safe (generatePrologCode scenario1) ([2, 1], start) \<noteq> []"
    "safe (generatePrologCode scenario1) ([1, 2], target) = []"
    by code_simp+
  have init: "map count (species scenario1) = [2, 2]"
    by (simp add: scenario1_def)
  have a: "([0, 2], ([2, 0], target)) \<in> set (transition_with_move (generatePrologCode scenario1) ([2, 2], start))"
    using transition_with_move_exact [OF len(1), of "[0, 2]" "([2, 0], target)"] mv sf by simp
  have b: "([1, 0], ([1, 2], target)) \<notin> set (transition_with_move (generatePrologCode scenario1) ([2, 2], start))"
    using transition_with_move_exact [OF len(1), of "[1, 0]" "([1, 2], target)"] sf by simp
  have c: "([0, 1], ([2, 1], start)) \<in> set (transition_with_move (generatePrologCode scenario1) ([2, 0], target))"
    using transition_with_move_exact [OF len(2), of "[0, 1]" "([2, 1], start)"] mv sf init by simp
  have d: "([0, 1], ([2, 3], start)) \<notin> set (transition_with_move (generatePrologCode scenario1) ([2, 2], target))"
    using transition_with_move_exact [OF len(1), of "[0, 1]" "([2, 3], start)"] init by simp
  from len(1) a b c d show ?thesis by simp
qed

subsection \<open>C6: decoding a step line\<close>

text \<open>
  C6 says that a segment must match \<^verbatim>\<open><integer> <name>\<close> with a single space between the
  two. The decoder accepts any run of white space there: the line with two spaces after
  the \<open>2\<close> decodes, although its segment is no integer, one space and a name.
\<close>

theorem two_spaces_decode:
  "parse_line [''cats''] ''2  cats cross left -> right'' = Inr ([2], leftToRight) \<and>
   split_on ''2  cats cross left -> right'' '' cross '' = [''2  cats'', ''left -> right''] \<and>
   split_on ''2  cats'' '','' = [''2  cats''] \<and>
   \<not> (\<exists>digits spName. is_segment ''2  cats'' digits '' '' spName)"
proof -
  have a: "parse_line [''cats''] ''2  cats cross left -> right'' = Inr ([2], leftToRight)"
    by code_simp
  have b: "split_on ''2  cats cross left -> right'' '' cross '' = [''2  cats'', ''left -> right'']"
    by code_simp
  have c: "split_on ''2  cats'' '','' = [''2  cats'']"
    by code_simp
  have d: "\<not> (\<exists>digits spName. is_segment ''2  cats'' digits '' '' spName)"
  proof
    assume "\<exists>digits spName. is_segment ''2  cats'' digits '' '' spName"
    then obtain digits spName where s: "is_segment ''2  cats'' digits '' '' spName" by blast
    have "takeWhile is_space (dropWhile is_digit ''2  cats'') = ''  ''"
      by code_simp
    with is_segment_unique(2) [OF s] show False by simp
  qed
  from a b c d show ?thesis by simp
qed

text \<open>
  C6, amended. Decoding a step line splits it on the literal substring \<^verbatim>\<open>" cross "\<close> and
  needs at least two pieces (pieces after the second are ignored). It succeeds only if the
  second piece, trimmed, is exactly \<^verbatim>\<open>left -> right\<close> (direction start to target) or
  \<^verbatim>\<open>right -> left\<close> (target to start). The first piece is split on commas into segments;
  each segment, trimmed, must be an integer, one or more white-space characters and a
  name without white space, and the name must be a species of the config: otherwise
  decoding fails. The amount of a species is the sum of the integers of the segments that
  name it, and \<open>0\<close> when none does. Decoding succeeds exactly in this case. This
  holds for a line whose integers add up to less than \<open>2^53\<close>, so that every integer
  read and every sum formed is exact in the arithmetic of the source; beyond that the
  source rounds.
\<close>

theorem parse_line_exact:
  assumes "line_total line < 2 ^ 53"
  shows
  "parse_line speciesNames line = Inr (amounts, d) \<longleftrightarrow>
     (\<exists>leftPart rightPart more parsed.
        split_on line '' cross '' = leftPart # rightPart # more \<and>
        (trim rightPart = ''left -> right'' \<and> d = leftToRight \<or>
         trim rightPart = ''right -> left'' \<and> d = rightToLeft) \<and>
        list_all2 (decoded_segment speciesNames) (split_on leftPart '','') parsed \<and>
        length amounts = length speciesNames \<and>
        (\<forall>i<length speciesNames. amounts ! i = amount_for speciesNames parsed i))"
  by (rule parse_line_Inr)

theorem parse_line_exact_witness:
  "line_total ''2 cats, 1 cats cross left -> right'' < 2 ^ 53 \<and>
   parse_line [''cats'', ''dogs''] ''2 cats, 1 cats cross left -> right'' = Inr ([3, 0], leftToRight) \<and>
   (\<exists>leftPart rightPart more parsed.
        split_on ''2 cats, 1 cats cross left -> right'' '' cross '' = leftPart # rightPart # more \<and>
        (trim rightPart = ''left -> right'' \<and> leftToRight = leftToRight \<or>
         trim rightPart = ''right -> left'' \<and> leftToRight = rightToLeft) \<and>
        list_all2 (decoded_segment [''cats'', ''dogs'']) (split_on leftPart '','') parsed \<and>
        length [3, 0 :: int] = length [''cats'', ''dogs''] \<and>
        (\<forall>i<length [''cats'', ''dogs'']. [3, 0] ! i = amount_for [''cats'', ''dogs''] parsed i))"
proof -
  have t: "line_total ''2 cats, 1 cats cross left -> right'' = 3"
    by code_simp
  have h: "line_total ''2 cats, 1 cats cross left -> right'' < 2 ^ 53"
    by (simp add: t)
  have p: "parse_line [''cats'', ''dogs''] ''2 cats, 1 cats cross left -> right''
      = Inr ([3, 0], leftToRight)"
    by code_simp
  from h p parse_line_exact [OF h, THEN iffD1, OF p] show ?thesis by (intro conjI)
qed

subsection \<open>C7: termination of the generator\<close>

text \<open>
  C7 says that the generator terminates for every input, after at most 1000 attempts. The
  attempts bound the outer loop only. For one species and one relationship asked for, the
  first attempt enters the inner loop with predator and prey both \<open>0\<close>, and never leaves
  it: the generator returns nothing, for every sequence of random draws, every count and
  every capacity.
\<close>

theorem generator_hangs_for_one_species:
  "generateRandomConfig rnd 1 numIndividualsPerSpecies 1 capacity = None"
  by (simp add: generateRandomConfig_def relationship_loop_never_returns split: prod.split)

subsection \<open>C8: everyone at once\<close>

text \<open>
  C8 says that for a config with no relationship and a total population of at most the
  capacity, \<^verbatim>\<open>solveProblem\<close> returns a one-step solution that moves everyone. With a
  total population of \<open>0\<close> there is no one to move, a move must carry at least one
  individual, and the search finds no solution at all.
\<close>

theorem nobody_to_move_no_solution:
  "relationships nobody = [] \<and>
   sum_list (map count (species nobody)) \<le> starshipCapacity nobody \<and>
   solveProblem nobody = Inr []"
proof -
  have "solveProblem nobody = Inr []" by code_simp
  then show ?thesis by (simp add: nobody_def)
qed

text \<open>
  C8, amended. For every config with no relationship, no negative count and a total
  population of at least \<open>1\<close> and at most the capacity, \<^verbatim>\<open>solveProblem\<close> returns a list
  of solutions, one of which is the single line that encodes the move of every individual
  from the start to the target.
\<close>

theorem one_step_solution:
  assumes "relationships config = []"
    and "\<forall>s\<in>set (species config). 0 \<le> count s"
    and "1 \<le> sum_list (map count (species config))"
    and "sum_list (map count (species config)) \<le> starshipCapacity config"
  shows "\<exists>solutions line.
           solveProblem config = Inr solutions \<and>
           moveToSentence (map count (species config), (map count (species config), start),
             (replicate (length (species config)) 0, target)) (species config) = Some line \<and>
           [line] \<in> set solutions"
proof -
  let ?everyone = "(map count (species config), (map count (species config), start),
             (replicate (length (species config)) 0, target))"
  have "[?everyone] \<in> set (solve_solution config)"
    using assms by (rule everyone_at_once)
  then have "map (\<lambda>head. the (moveToSentence head (species config))) [?everyone]
      \<in> set (map (\<lambda>sol. map (\<lambda>head. the (moveToSentence head (species config))) sol)
            (solve_solution config))"
    unfolding set_map by (rule imageI)
  moreover obtain line where "moveToSentence ?everyone (species config) = Some line"
    using moveToSentence_Some [of "map count (species config)" "species config"
        "(map count (species config), start)" "(replicate (length (species config)) 0, target)"]
    by auto
  ultimately show ?thesis
    by (auto simp: solveProblem_Inr)
qed

theorem one_step_solution_witness:
  "relationships scenario2 = [] \<and>
   1 \<le> sum_list (map count (species scenario2)) \<and>
   sum_list (map count (species scenario2)) \<le> starshipCapacity scenario2 \<and>
   (\<exists>solutions. solveProblem scenario2 = Inr solutions \<and>
      [''2 cats, 1 dogs cross left -> right''] \<in> set solutions)"
proof -
  have h: "relationships scenario2 = []" "\<forall>s\<in>set (species scenario2). 0 \<le> count s"
    "1 \<le> sum_list (map count (species scenario2))"
    "sum_list (map count (species scenario2)) \<le> starshipCapacity scenario2"
    by (simp_all add: scenario2_def)
  have line: "moveToSentence (map count (species scenario2), (map count (species scenario2), start),
             (replicate (length (species scenario2)) 0, target)) (species scenario2)
      = Some ''2 cats, 1 dogs cross left -> right''"
    by code_simp
  from one_step_solution [OF h] line h show ?thesis by auto
qed

subsection \<open>C9: verification has no visited-state constraint\<close>

text \<open>
  C9. There is a config and a step sequence that revisits a state, every step of which is
  a legal safe transition, that ends at the final state, and that \<^verbatim>\<open>checkUserSolution\<close>
  accepts, although the search does not return it. For one species \<open>a\<close> with two
  individuals and capacity 2, the candidate moves one \<open>a\<close> right, moves it back (the state
  is the initial state again), and moves both right.
\<close>

theorem verify_accepts_revisited_state:
  "initial_state (generatePrologCode two_of_a_kind) = ([2], start) \<and>
   final_state (generatePrologCode two_of_a_kind) = ([0], target) \<and>
   parseSolutionLines two_of_a_kind there_and_back =
     Inr [([1], leftToRight), ([1], rightToLeft), ([2], leftToRight)] \<and>
   ([1], ([1], target)) \<in> set (transition_with_move (generatePrologCode two_of_a_kind) ([2], start)) \<and>
   ([1], ([2], start)) \<in> set (transition_with_move (generatePrologCode two_of_a_kind) ([1], target)) \<and>
   ([2], ([0], target)) \<in> set (transition_with_move (generatePrologCode two_of_a_kind) ([2], start)) \<and>
   checkUserSolution (generatePrologCode two_of_a_kind) two_of_a_kind there_and_back = Inr True \<and>
   solveProblem two_of_a_kind = Inr [[''2 a cross left -> right'']]"
proof -
  have states: "initial_state (generatePrologCode two_of_a_kind) = ([2], start)"
    "final_state (generatePrologCode two_of_a_kind) = ([0], target)"
    by code_simp+
  have steps: "parseSolutionLines two_of_a_kind there_and_back =
     Inr [([1], leftToRight), ([1], rightToLeft), ([2], leftToRight)]"
    by code_simp
  have from_start: "transition_with_move (generatePrologCode two_of_a_kind) ([2], start) =
      [([1], ([1], target)), ([2], ([0], target))]"
    by code_simp
  have from_target: "transition_with_move (generatePrologCode two_of_a_kind) ([1], target) =
      [([1], ([2], start))]"
    by code_simp
  have accepted: "checkUserSolution (generatePrologCode two_of_a_kind) two_of_a_kind there_and_back
      = Inr True"
    by code_simp
  have solved: "solveProblem two_of_a_kind = Inr [[''2 a cross left -> right'']]"
    by code_simp
  show ?thesis
    by (simp add: states steps from_start from_target accepted solved)
qed

subsection \<open>C10: where safety is required\<close>

text \<open>
  C10 says that, since neither \<^verbatim>\<open>path\<close> nor \<^verbatim>\<open>check_solution\<close> evaluates \<^verbatim>\<open>safe\<close> on
  the initial state, a config whose initial state violates the relationships can still
  have solutions and accepted candidates. It cannot: there is no config with an unsafe
  initial state for which the search yields a solution or the verification returns true.
\<close>

theorem unsafe_initial_state_never_solved:
  "\<not> (\<exists>config.
        safe (generatePrologCode config) (initial_state (generatePrologCode config)) = [] \<and>
        (solve_solution config \<noteq> [] \<or>
         (\<exists>solutionLines. checkUserSolution (generatePrologCode config) config solutionLines = Inr True)))"
  using unsafe_initial_no_solution by blast

text \<open>
  C10, amended. Neither \<^verbatim>\<open>path\<close> nor \<^verbatim>\<open>check_solution\<close> evaluates \<^verbatim>\<open>safe\<close> on the
  state it starts from: safety is required only of each state reached by a transition, so
  from a starting state that violates the relationships the search can still yield a
  solution and the check can still succeed (in scenario 1, from the state with one \<open>a\<close>
  and two \<open>b\<close> at the start). For the initial state of a config this never helps: the
  final state has the complementary counts and is safe exactly when the initial state is,
  and it is reached by a transition; so when the initial state violates the relationships
  the search yields no solution and the verification never returns true.
\<close>

theorem safety_only_after_moves:
  "(safe (generatePrologCode scenario1) ([1, 2], start) = [] \<and>
    [([0, 1], ([1, 2], start), ([1, 1], target)),
     ([1, 0], ([1, 1], target), ([2, 1], start)),
     ([2, 0], ([2, 1], start), ([0, 1], target)),
     ([0, 1], ([0, 1], target), ([0, 2], start)),
     ([0, 2], ([0, 2], start), ([0, 0], target))]
      \<in> set (path scenario1 ([1, 2], start) [([1, 2], start)]) \<and>
    check_solution (generatePrologCode scenario1)
      [([0, 1], leftToRight), ([1, 0], rightToLeft), ([2, 0], leftToRight),
       ([0, 1], rightToLeft), ([0, 2], leftToRight)] ([1, 2], start) \<noteq> []) \<and>
   (safe (generatePrologCode config) (initial_state (generatePrologCode config)) \<noteq> [] \<longleftrightarrow>
    safe (generatePrologCode config) (final_state (generatePrologCode config)) \<noteq> []) \<and>
   (safe (generatePrologCode config) (initial_state (generatePrologCode config)) = [] \<longrightarrow>
      solve_solution config = [] \<and>
      (\<forall>solutionLines. checkUserSolution (generatePrologCode config) config solutionLines \<noteq> Inr True))"
proof -
  have unsafe: "safe (generatePrologCode scenario1) ([1, 2], start) = []"
    by code_simp
  have found: "[([0, 1], ([1, 2], start), ([1, 1], target)),
     ([1, 0], ([1, 1], target), ([2, 1], start)),
     ([2, 0], ([2, 1], start), ([0, 1], target)),
     ([0, 1], ([0, 1], target), ([0, 2], start)),
     ([0, 2], ([0, 2], start), ([0, 0], target))]
      \<in> set (path scenario1 ([1, 2], start) [([1, 2], start)])"
    by code_simp
  have checked: "check_solution (generatePrologCode scenario1)
      [([0, 1], leftToRight), ([1, 0], rightToLeft), ([2, 0], leftToRight),
       ([0, 1], rightToLeft), ([0, 2], leftToRight)] ([1, 2], start) \<noteq> []"
    by code_simp
  show ?thesis
    using unsafe found checked safe_initial_iff_final [of config]
      unsafe_initial_no_solution [of config]
    by blast
qed

theorem safety_only_after_moves_witness:
  "safe (generatePrologCode outnumbered) (initial_state (generatePrologCode outnumbered)) = [] \<and>
   safe (generatePrologCode outnumbered) (final_state (generatePrologCode outnumbered)) = [] \<and>
   solve_solution outnumbered = [] \<and>
   checkUserSolution (generatePrologCode outnumbered) outnumbered [''1 a, 2 b cross left -> right'']
     \<noteq> Inr True"
proof -
  have unsafe: "safe (generatePrologCode outnumbered) (initial_state (generatePrologCode outnumbered)) = []"
    by code_simp
  from safety_only_after_moves [of outnumbered] unsafe show ?thesis by blast
qed

end
